theory Spec2Isabelle
  imports Main "HOL-Library.Word" "HOL-Library.Monad_Syntax"
begin

unbundle bit_operations_syntax

section \<open>ATIS decoder: the symbol codec\<close>

text \<open>
  The C types of \<^verbatim>\<open>atis_decoder.c\<close>: \<^verbatim>\<open>uint8_t\<close> and \<^verbatim>\<open>int16_t\<close> are words,
  \<^verbatim>\<open>int\<close> is modelled by \<open>int\<close> together with the range of a 32-bit \<^verbatim>\<open>int\<close>:
  an operation whose C behaviour is undefined (signed overflow, a subscript outside its
  array) returns \<open>None\<close>.
\<close>

type_synonym uint8 = "8 word"
type_synonym int16 = "16 word"

definition INT_MAX :: int where
  "INT_MAX = 2147483647"

definition SPB :: int where
  "SPB = 24000 div 1200"

definition SYM_DX :: int where
  "SYM_DX = 125"

definition RING :: int where
  "RING = 256"

text \<open>
  GCC's \<^verbatim>\<open>__builtin_popcount\<close> (a compiler builtin, documented as "returns the number
  of 1-bits in x") on a 32-bit \<^verbatim>\<open>unsigned\<close>.
\<close>

definition builtin_popcount :: "32 word \<Rightarrow> int" where
  "builtin_popcount x = int (length (filter (bit x) [0..<32]))"

text \<open>
  \<^verbatim>\<open>sym_decode\<close>: the elements of \<^verbatim>\<open>b\<close> are promoted to \<^verbatim>\<open>int\<close> before the shift;
  the result \<open>-1\<close> is the code's "invalid symbol".
\<close>

definition sym_decode :: "uint8 list \<Rightarrow> int" where
  "sym_decode b =
     (let v = fold (\<lambda>i v. v OR push_bit i (uint (b ! i))) [0..<7] 0;
          zeros = 7 - builtin_popcount (word_of_int v AND 0x7f);
          chk = push_bit 2 (uint (b ! 7)) OR push_bit 1 (uint (b ! 8)) OR uint (b ! 9)
      in if chk = zeros then v else -1)"

section \<open>C arithmetic with undefined behaviour made explicit\<close>

text \<open>
  \<^verbatim>\<open>x++\<close>, \<^verbatim>\<open>x--\<close> and \<^verbatim>\<open>x + y\<close> on \<^verbatim>\<open>int\<close>: \<open>None\<close> where the C result
  would leave the range of \<^verbatim>\<open>int\<close>. \<^verbatim>\<open>a % b\<close> truncates towards zero.
\<close>

definition int_incr :: "int \<Rightarrow> int option" where
  "int_incr x = (if x < INT_MAX then Some (x + 1) else None)"

definition int_decr :: "int \<Rightarrow> int option" where
  "int_decr x = (if - INT_MAX - 1 < x then Some (x - 1) else None)"

definition int_add :: "int \<Rightarrow> int \<Rightarrow> int option" where
  "int_add x y = (if - INT_MAX - 1 \<le> x + y \<and> x + y \<le> INT_MAX then Some (x + y) else None)"

definition c_rem :: "int \<Rightarrow> int \<Rightarrow> int" where
  "c_rem a b = a - b * (sgn a * sgn b * (\<bar>a\<bar> div \<bar>b\<bar>))"

section \<open>The decoder state\<close>

datatype mode = HUNT | LOCKED

text \<open>
  What the program writes: a line on stdout, the usage message on stderr, and the
  message handed to \<^verbatim>\<open>udp_send\<close> (which sends it as one datagram, or silently
  gives up when the socket cannot be created).
\<close>

datatype event = Stdout string | Stderr string | Udp_Send string

text \<open>
  The globals of the ring buffer and the locals of \<^verbatim>\<open>main\<close>. Arrays are functions
  from the index; every subscript is checked against the array's size where it is used.
\<close>

record decoder =
  ring :: "nat \<Rightarrow> uint8"
  rwr :: int
  rrd :: int
  rcnt :: int
  sb :: "nat \<Rightarrow> int16"
  sn :: int
  state :: mode
  sym_bit :: int
  data :: "nat \<Rightarrow> int"
  dcnt :: int
  started :: bool
  parity :: int
  out :: "event list"

section \<open>Bit ring buffer\<close>

text \<open>The subscript \<^verbatim>\<open>k % RING\<close> into \<^verbatim>\<open>ring[RING]\<close>.\<close>

definition ring_slot :: "int \<Rightarrow> nat option" where
  "ring_slot k = (let r = c_rem k RING in if 0 \<le> r \<and> r < RING then Some (nat r) else None)"

definition rpush :: "int \<Rightarrow> decoder \<Rightarrow> decoder option" where
  "rpush b s = do {
     k \<leftarrow> ring_slot (rwr s);
     w \<leftarrow> int_incr (rwr s);
     c \<leftarrow> int_incr (rcnt s);
     Some (s\<lparr>ring := (ring s)(k := word_of_int b), rwr := w, rcnt := c\<rparr>)
   }"

definition rpop :: "decoder \<Rightarrow> (int \<times> decoder) option" where
  "rpop s = do {
     c \<leftarrow> int_decr (rcnt s);
     k \<leftarrow> ring_slot (rrd s);
     r \<leftarrow> int_incr (rrd s);
     Some (uint (ring s k), s\<lparr>rcnt := c, rrd := r\<rparr>)
   }"

definition rpeek :: "int \<Rightarrow> decoder \<Rightarrow> int option" where
  "rpeek i s = do {
     j \<leftarrow> int_add (rrd s) i;
     k \<leftarrow> ring_slot j;
     Some (uint (ring s k))
   }"

text \<open>\<^verbatim>\<open>for (int i = 0; i < 10; i++) raw[i] = rpeek(i);\<close>\<close>

definition peek_raw :: "decoder \<Rightarrow> uint8 list option" where
  "peek_raw s = map_option (map word_of_int) (those (map (\<lambda>i. rpeek (int i) s) [0..<10]))"

text \<open>\<open>n\<close> calls of \<^verbatim>\<open>rpop()\<close> in a row, with the values they return.\<close>

fun rpop_n :: "nat \<Rightarrow> decoder \<Rightarrow> (int list \<times> decoder) option" where
  "rpop_n 0 s = Some ([], s)"
| "rpop_n (Suc n) s = do {
     (x, s1) \<leftarrow> rpop s;
     (xs, s2) \<leftarrow> rpop_n n s1;
     Some (x # xs, s2)
   }"

section \<open>Emission of a finished digit sequence\<close>

text \<open>\<^verbatim>\<open>printf("%02d", x)\<close>: decimal, zero-padded to width 2, the sign counting.\<close>

definition digit_char :: "nat \<Rightarrow> char" where
  "digit_char n = ''0123456789'' ! n"

fun dec_digits :: "nat \<Rightarrow> string" where
  "dec_digits n = (if n < 10 then [digit_char n] else dec_digits (n div 10) @ [digit_char (n mod 10)])"

declare dec_digits.simps [simp del]

definition fmt_02d :: "int \<Rightarrow> string" where
  "fmt_02d x =
     (if x < 0 then CHR ''-'' # dec_digits (nat (- x))
      else let d = dec_digits (nat x) in if length d < 2 then CHR ''0'' # d else d)"

text \<open>
  The five \<^verbatim>\<open>snprintf(out+len, sizeof(out)-len, "%02d", data[i])\<close> into \<^verbatim>\<open>out[24]\<close>,
  then \<^verbatim>\<open>out[len] = 0\<close>. \<^verbatim>\<open>len\<close> adds up the untruncated lengths, so the final
  store is inside the buffer exactly when the whole concatenation is shorter than 24
  characters, and then no call was truncated.
\<close>

definition render_digits :: "(nat \<Rightarrow> int) \<Rightarrow> string option" where
  "render_digits d =
     (let raw = concat (map (\<lambda>i. fmt_02d (d i)) [0..<5])
      in if length raw < 24 then Some raw else None)"

text \<open>\<^verbatim>\<open>char *p = (len == 10 && out[0] == '0') ? out+1 : out;\<close>\<close>

definition strip_leading_zero :: "string \<Rightarrow> string" where
  "strip_leading_zero raw = (if length raw = 10 \<and> raw ! 0 = CHR ''0'' then drop 1 raw else raw)"

definition emit :: "decoder \<Rightarrow> decoder option" where
  "emit s = do {
     raw \<leftarrow> render_digits (data s);
     let p = strip_leading_zero raw;
     let msg = take 31 (p @ [CHR 0x0A]);
     Some (s\<lparr>out := out s @ [Stdout (''ATIS: '' @ p @ [CHR 0x0A]), Udp_Send msg],
             state := HUNT, dcnt := 0, started := False\<rparr>)
   }"

section \<open>Diversity collection\<close>

text \<open>Lines 146 to 151: READ on even \<^verbatim>\<open>parity\<close>, SKIP on odd, then \<^verbatim>\<open>parity++\<close>.\<close>

definition alternate :: "int \<Rightarrow> decoder \<Rightarrow> decoder option" where
  "alternate v s = do {
     s1 \<leftarrow> (if c_rem (parity s) 2 = 0 \<and> v \<le> 99 \<and> dcnt s < 16
           then (if 0 \<le> dcnt s
                 then do { c \<leftarrow> int_incr (dcnt s);
                           Some (s\<lparr>data := (data s)(nat (dcnt s) := v), dcnt := c\<rparr>) }
                 else None)
           else Some s);
     p \<leftarrow> int_incr (parity s1);
     Some (s1\<lparr>parity := p\<rparr>)
   }"

text \<open>Lines 139 to 173: what happens to a successfully decoded symbol value.\<close>

definition on_symbol :: "int \<Rightarrow> decoder \<Rightarrow> decoder option" where
  "on_symbol v s =
     (if \<not> started s \<and> v > 99 then Some s
      else do {
        let s1 = (if \<not> started s then s\<lparr>started := True, parity := 0\<rparr> else s);
        s2 \<leftarrow> alternate v s1;
        if dcnt s2 = 5 then emit s2 else Some s2
      })"

section \<open>The synchronisation state machine\<close>

function hunt_loop :: "decoder \<Rightarrow> decoder option" where
  "hunt_loop s =
     (if rcnt s \<ge> 10 then
        (case peek_raw s of
           None \<Rightarrow> None
         | Some raw \<Rightarrow>
             if sym_decode raw = SYM_DX then
               (case rpop_n 10 s of
                  None \<Rightarrow> None
                | Some (_, s1) \<Rightarrow>
                    Some (s1\<lparr>state := LOCKED, sym_bit := 0, dcnt := 0,
                              started := False, parity := 0\<rparr>))
             else
               (case rpop s of
                  None \<Rightarrow> None
                | Some (_, s1) \<Rightarrow> hunt_loop s1))
      else Some s)"
  by pat_completeness auto
termination
  by (relation "measure (\<lambda>s. nat (rcnt s))")
     (auto simp: rpop_def int_decr_def split: bind_splits if_splits)

declare hunt_loop.simps [simp del]

text \<open>Lines 123 to 173: one more bit while LOCKED.\<close>

definition locked_bit :: "decoder \<Rightarrow> decoder option" where
  "locked_bit s = do {
     n \<leftarrow> int_incr (sym_bit s);
     let s1 = s\<lparr>sym_bit := n\<rparr>;
     if sym_bit s1 < 10 then Some s1
     else do {
       let s2 = s1\<lparr>sym_bit := 0\<rparr>;
       (raw, s3) \<leftarrow> rpop_n 10 s2;
       let v = sym_decode (map word_of_int raw);
       if v < 0 then Some (s3\<lparr>state := HUNT, dcnt := 0, started := False\<rparr>)
       else on_symbol v s3
     }
   }"

text \<open>Lines 102 to 173: the body of the loop once a window is full and classified.\<close>

definition process_bit :: "int \<Rightarrow> decoder \<Rightarrow> decoder option" where
  "process_bit b s = do {
     s1 \<leftarrow> rpush b s;
     if state s1 = HUNT then hunt_loop s1 else locked_bit s1
   }"

section \<open>The sample loop and \<^verbatim>\<open>main\<close>\<close>

text \<open>
  The comparison \<^verbatim>\<open>goertzel(sb, SPB, MARK_HZ) > goertzel(sb, SPB, SPACE_HZ)\<close> is
  single-precision floating point; it enters as the parameter \<open>mark_gt_space\<close>, a
  function of the 20 samples of the window.
\<close>

definition window :: "decoder \<Rightarrow> int16 list" where
  "window s = map (sb s) [0..<nat SPB]"

definition feed_sample :: "(int16 list \<Rightarrow> bool) \<Rightarrow> int16 \<Rightarrow> decoder \<Rightarrow> decoder option" where
  "feed_sample mark_gt_space x s =
     (if 0 \<le> sn s \<and> sn s < SPB then
        (let s1 = s\<lparr>sb := (sb s)(nat (sn s) := x), sn := sn s + 1\<rparr>
         in if sn s1 < SPB then Some s1
            else let s2 = s1\<lparr>sn := 0\<rparr>;
                     bit = (if mark_gt_space (window s2) then 1 else 0)
                 in process_bit bit s2)
      else None)"

text \<open>
  \<^verbatim>\<open>while (fread(&s, 2, 1, stdin) == 1)\<close>: the input is the list of complete samples
  on stdin; the loop ends with the list.
\<close>

fun run :: "(int16 list \<Rightarrow> bool) \<Rightarrow> int16 list \<Rightarrow> decoder \<Rightarrow> decoder option" where
  "run mark_gt_space [] s = Some s"
| "run mark_gt_space (x # xs) s = do {
     s1 \<leftarrow> feed_sample mark_gt_space x s;
     run mark_gt_space xs s1
   }"

text \<open>
  The state at the top of the loop. \<^verbatim>\<open>ring\<close> is static, hence zero; \<^verbatim>\<open>sb\<close> and
  \<^verbatim>\<open>data\<close> are uninitialised locals, whose contents are the parameters.
\<close>

definition init :: "(nat \<Rightarrow> int16) \<Rightarrow> (nat \<Rightarrow> int) \<Rightarrow> decoder" where
  "init sb0 d0 =
     \<lparr>ring = (\<lambda>_. 0), rwr = 0, rrd = 0, rcnt = 0, sb = sb0, sn = 0, state = HUNT,
      sym_bit = 0, data = d0, dcnt = 0, started = False, parity = 0, out = []\<rparr>"

text \<open>
  \<^verbatim>\<open>main\<close>: the exit status and everything written, for the given arguments and input.
  With no argument at all \<^verbatim>\<open>argv[0]\<close> is a null pointer, and printing it is undefined.
\<close>

definition atis_main ::
  "(int16 list \<Rightarrow> bool) \<Rightarrow> string list \<Rightarrow> int16 list \<Rightarrow> (nat \<Rightarrow> int16) \<Rightarrow> (nat \<Rightarrow> int)
     \<Rightarrow> (int \<times> event list) option" where
  "atis_main mark_gt_space argv input sb0 d0 =
     (if length argv < 3
      then (if argv = [] then None
            else Some (1, [Stderr (''usage: '' @ argv ! 0 @ '' <host> <port>'' @ [CHR 0x0A])]))
      else map_option (\<lambda>s. (0, out s)) (run mark_gt_space input (init sb0 d0)))"

section \<open>The specification's functions\<close>

text \<open>
  The symbol codec as the specification words it, on bits: the 7 data bits weigh
  \<open>2 ^ i\<close>, \<open>zeros = 7 - popcount v\<close>, the check field is read most significant bit
  first, and \<open>decode\<close> succeeds with \<open>v\<close> iff the check field equals \<open>zeros\<close>.
\<close>

fun popcount :: "nat \<Rightarrow> nat" where
  "popcount n = (if n = 0 then 0 else n mod 2 + popcount (n div 2))"

declare popcount.simps [simp del]

definition data_value :: "bool list \<Rightarrow> nat" where
  "data_value b = sum_list (map (\<lambda>i. of_bool (b ! i) * 2 ^ i) [0..<7])"

definition check_field :: "bool list \<Rightarrow> nat" where
  "check_field b = 4 * of_bool (b ! 7) + 2 * of_bool (b ! 8) + of_bool (b ! 9)"

definition decode_spec :: "bool list \<Rightarrow> nat option" where
  "decode_spec b =
     (let v = data_value b; zeros = 7 - popcount v; check = check_field b
      in if check = zeros then Some v else None)"

text \<open>
  The ring window of the specification: the not yet consumed bits, oldest first, read off
  the array behind the cursors. \<open>ring_ok\<close> relates the two cursors and the count and
  keeps them in the range of \<^verbatim>\<open>int\<close>.
\<close>

definition queue :: "decoder \<Rightarrow> uint8 list" where
  "queue s = map (\<lambda>i. ring s (nat ((rrd s + int i) mod RING))) [0..<nat (rcnt s)]"

definition ring_ok :: "decoder \<Rightarrow> bool" where
  "ring_ok s \<longleftrightarrow> 0 \<le> rrd s \<and> 0 \<le> rcnt s \<and> rcnt s \<le> RING \<and> rwr s = rrd s + rcnt s \<and> rwr s \<le> INT_MAX"

text \<open>
  SEARCHING as the specification words it, on the ring window: while it holds at least 10
  bits, decode the oldest 10; on the phasing symbol consume those 10 and lock, otherwise
  drop the single oldest bit and retry. The result is the window left and whether a lock
  occurred.
\<close>

function hunt_spec :: "uint8 list \<Rightarrow> uint8 list \<times> bool" where
  "hunt_spec q =
     (if 10 \<le> length q then
        (if sym_decode (take 10 q) = SYM_DX then (drop 10 q, True) else hunt_spec (tl q))
      else (q, False))"
  by pat_completeness auto
termination
  by (relation "measure length") auto

declare hunt_spec.simps [simp del]

text \<open>
  An example: SEARCHING with the first nine bits of the phasing symbol in the window,
  and stale collection state.
\<close>

definition dx_prefix_state :: decoder where
  "dx_prefix_state =
     \<lparr>ring = (\<lambda>i. if i < 9 then [1, 0, 1, 1, 1, 1, 1, 0, 0] ! i else 0),
      rwr = 9, rrd = 0, rcnt = 9, sb = (\<lambda>_. 0), sn = 0, state = HUNT,
      sym_bit = 3, data = (\<lambda>_. 0), dcnt = 2, started = True, parity = 7, out = []\<rparr>"

text \<open>The loop body run over classified bits, one after the other.\<close>

fun process_bits :: "int list \<Rightarrow> decoder \<Rightarrow> decoder option" where
  "process_bits [] s = Some s"
| "process_bits (b # bs) s = do { s1 \<leftarrow> process_bit b s; process_bits bs s1 }"

text \<open>
  Two states of which the second is SEARCHING and the first differs from it at most in
  the alternation counter.
\<close>

definition parity_dead :: "int \<Rightarrow> decoder \<Rightarrow> decoder \<Rightarrow> bool" where
  "parity_dead p t s \<longleftrightarrow> t = s \<or> (state s = HUNT \<and> t = s\<lparr>parity := p\<rparr>)"

text \<open>An example: LOCKED at a symbol boundary, two digit pairs collected.\<close>

definition locked_example :: decoder where
  "locked_example =
     \<lparr>ring = (\<lambda>_. 0), rwr = 20, rrd = 20, rcnt = 0, sb = (\<lambda>_. 0), sn = 0, state = LOCKED,
      sym_bit = 0, data = (\<lambda>i. if i = 0 then 12 else if i = 1 then 34 else 0), dcnt = 2,
      started = True, parity = 3, out = []\<rparr>"

text \<open>
  The collection state of the specification, read off the decoder: the started flag, the
  alternation counter and the sequence of accepted values.
\<close>

definition collection :: "decoder \<Rightarrow> bool \<times> int \<times> int list" where
  "collection s = (started s, parity s, map (data s) [0..<nat (dcnt s)])"

text \<open>
  The collector as the specification words it, for one symbol value \<open>v\<close>. Not started:
  a value above 99 is ignored, any other sets the flag, resets the counter and is treated
  as in step 2. Started: on an even counter the value is appended if it is at most 99 and
  fewer than 5 values are held; on an odd counter it is dropped; the counter goes up by
  one either way.
\<close>

definition collector_spec :: "int \<Rightarrow> bool \<times> int \<times> int list \<Rightarrow> bool \<times> int \<times> int list" where
  "collector_spec v c =
     (case c of (st, k, seq) \<Rightarrow>
        if \<not> st \<and> v > 99 then (st, k, seq)
        else let k0 = (if st then k else 0)
             in (True, k0 + 1, if even k0 \<and> v \<le> 99 \<and> length seq < 5 then seq @ [v] else seq))"

text \<open>
  The rendering of the specification: two zero-padded decimal digits per value, and the
  leading character dropped iff the string has exactly 10 characters and starts with
  \<open>0\<close>.
\<close>

definition two_digits :: "int \<Rightarrow> string" where
  "two_digits x = [digit_char (nat (x div 10)), digit_char (nat (x mod 10))]"

definition normalize_spec :: "string \<Rightarrow> string" where
  "normalize_spec str = (if length str = 10 \<and> hd str = CHR ''0'' then tl str else str)"

text \<open>An example: LOCKED, four digit pairs collected, the next symbol at a READ position.\<close>

definition four_pairs_example :: decoder where
  "four_pairs_example =
     \<lparr>ring = (\<lambda>_. 0), rwr = 90, rrd = 90, rcnt = 0, sb = (\<lambda>_. 0), sn = 0, state = LOCKED,
      sym_bit = 0, data = (\<lambda>i. [1, 23, 45, 67, 0] ! min i 4), dcnt = 4,
      started = True, parity = 8, out = []\<rparr>"

text \<open>
  Modelled from the spec: \<open>encode\<close> is not in the source (the specification asks for
  it for test fixtures only). It is "the inverse" of decode: "construct the 7 data bits,
  append the check field", the data bits least significant first, the check field the
  zero count \<open>7 - popcount v\<close>, most significant bit first.
\<close>

definition encode :: "nat \<Rightarrow> uint8 list" where
  "encode v =
     (let zeros = 7 - popcount v
      in map of_bool (map (bit v) [0..<7] @ [bit zeros 2, bit zeros 1, bit zeros 0]))"

text \<open>
  The invariant of the main loop. \<open>coll_ok\<close>: at most 4 values are held, each in 0..99,
  the array beyond index 4 is as it was at the start, the alternation counter is not
  negative. \<open>bit_inv\<close>, after \<open>n\<close> classified bits: the ring is in order with \<open>n\<close>
  bits written, it holds at most 9 bits while SEARCHING and as many as the bit offset
  (at most 9) while LOCKED. \<open>inv\<close>, after \<open>t\<close> samples: \<open>t div 20\<close> bits were
  classified, \<open>t mod 20\<close> samples are in the window, and the ring holds bits.
\<close>

definition coll_ok :: "(nat \<Rightarrow> int) \<Rightarrow> decoder \<Rightarrow> bool" where
  "coll_ok d0 s \<longleftrightarrow>
     0 \<le> dcnt s \<and> dcnt s \<le> 4 \<and> (\<forall>i. int i < dcnt s \<longrightarrow> 0 \<le> data s i \<and> data s i \<le> 99) \<and>
     (\<forall>i\<ge>5. data s i = d0 i) \<and> 0 \<le> parity s"

definition bit_inv :: "(nat \<Rightarrow> int) \<Rightarrow> nat \<Rightarrow> decoder \<Rightarrow> bool" where
  "bit_inv d0 n s \<longleftrightarrow>
     ring_ok s \<and> rwr s = int n \<and>
     (state s = HUNT \<longrightarrow> rcnt s \<le> 9) \<and>
     (state s = LOCKED \<longrightarrow> rcnt s = sym_bit s \<and> sym_bit s \<le> 9) \<and>
     coll_ok d0 s \<and> parity s \<le> rwr s"

definition inv :: "(nat \<Rightarrow> int) \<Rightarrow> nat \<Rightarrow> decoder \<Rightarrow> bool" where
  "inv d0 t s \<longleftrightarrow>
     bit_inv d0 (t div 20) s \<and> sn s = int (t mod 20) \<and> (\<forall>k. ring s k = 0 \<or> ring s k = 1)"

section \<open>The symbol codec decodes as specified\<close>

lemma upt7: "[0..<7] = [0, 1, 2, 3, 4, 5, 6]"
  by (simp add: upt_rec)

lemma upt10: "[0..<10] = [0, 1, 2, 3, 4, 5, 6, 7, 8, 9]"
  by (simp add: upt_rec)

lemma upt32:
  "[0..<32] = [0, 1, 2, 3, 4, 5, 6, 7, 8, 9, 10, 11, 12, 13, 14, 15, 16, 17, 18, 19, 20,
               21, 22, 23, 24, 25, 26, 27, 28, 29, 30, 31]"
  by (simp add: upt_rec)

text \<open>The data part and the popcount, by running through the 128 values of the 7 bits.\<close>

lemma data_word_bools:
  "fold (\<lambda>i v. v OR push_bit i (uint ((map of_bool [c0, c1, c2, c3, c4, c5, c6] @ r) ! i)))
      [0..<7] 0
     = int (data_value ([c0, c1, c2, c3, c4, c5, c6] @ r'))"
  by (cases c0; cases c1; cases c2; cases c3; cases c4; cases c5; cases c6;
      simp add: data_value_def upt7)

lemma popcount_bools:
  "builtin_popcount (word_of_int (int (data_value ([c0, c1, c2, c3, c4, c5, c6] @ r'))) AND 0x7f)
     = int (popcount (data_value ([c0, c1, c2, c3, c4, c5, c6] @ r')))"
  by (cases c0; cases c1; cases c2; cases c3; cases c4; cases c5; cases c6;
      simp add: data_value_def upt7 builtin_popcount_def upt32 popcount.simps)

lemma data_value_le: "data_value ([c0, c1, c2, c3, c4, c5, c6] @ r') \<le> 127"
  by (simp add: data_value_def upt7)

lemma popcount_bound: "n < 2 ^ k \<Longrightarrow> popcount n \<le> k"
proof (induction k arbitrary: n)
  case 0
  then show ?case by (simp add: popcount.simps)
next
  case (Suc k)
  have "n div 2 < 2 ^ k" using Suc.prems by simp
  then have ih: "popcount (n div 2) \<le> k" by (rule Suc.IH)
  have m: "n mod 2 \<le> 1" by arith
  show ?case using ih m by (subst popcount.simps) simp
qed

lemma check_bools:
  "push_bit 2 (uint ((map of_bool [c0, c1, c2, c3, c4, c5, c6, c7, c8, c9] :: uint8 list) ! 7))
     OR push_bit 1 (uint ((map of_bool [c0, c1, c2, c3, c4, c5, c6, c7, c8, c9] :: uint8 list) ! 8))
     OR uint ((map of_bool [c0, c1, c2, c3, c4, c5, c6, c7, c8, c9] :: uint8 list) ! 9)
   = int (check_field [c0, c1, c2, c3, c4, c5, c6, c7, c8, c9])"
  by (cases c7; cases c8; cases c9; simp add: check_field_def)

lemma list10:
  assumes "length b = 10"
  obtains b0 b1 b2 b3 b4 b5 b6 b7 b8 b9 where "b = [b0, b1, b2, b3, b4, b5, b6, b7, b8, b9]"
proof -
  from assms have "b = map ((!) b) [0..<10]"
    by (metis map_nth)
  then show ?thesis using that by (simp add: upt10)
qed

lemma bits_of_bool:
  "set b \<subseteq> {0, 1} \<Longrightarrow> map of_bool (map (\<lambda>x. x = 1) b) = (b :: uint8 list)"
  by (induction b) auto

lemma sym_decode_bools:
  "sym_decode (map of_bool [c0, c1, c2, c3, c4, c5, c6, c7, c8, c9]) =
     (case decode_spec [c0, c1, c2, c3, c4, c5, c6, c7, c8, c9] of
        Some v \<Rightarrow> int v | None \<Rightarrow> - 1)"
proof -
  let ?cs = "[c0, c1, c2, c3, c4, c5, c6, c7, c8, c9]"
  have v: "fold (\<lambda>i v. v OR push_bit i (uint ((map of_bool ?cs :: uint8 list) ! i))) [0..<7] 0
             = int (data_value ?cs)"
    using data_word_bools [of c0 c1 c2 c3 c4 c5 c6 "map of_bool [c7, c8, c9]" "[c7, c8, c9]"]
    by simp
  have p: "builtin_popcount (word_of_int (int (data_value ?cs)) AND 0x7f)
             = int (popcount (data_value ?cs))"
    using popcount_bools [of c0 c1 c2 c3 c4 c5 c6 "[c7, c8, c9]"] by simp
  have "data_value ?cs < 2 ^ 7"
    using data_value_le [of c0 c1 c2 c3 c4 c5 c6 "[c7, c8, c9]"] by simp
  then have le: "popcount (data_value ?cs) \<le> 7"
    by (rule popcount_bound)
  show ?thesis
    unfolding sym_decode_def decode_spec_def Let_def v p check_bools
    using le by (auto simp: of_nat_diff)
qed

text \<open>
  C2. For every group of 10 bits \<open>b\<close> (bytes 0 or 1, as the ring holds them),
  \<open>sym_decode\<close> computes what the specification's \<open>decode\<close> computes: the value \<open>v\<close>
  of the first 7 bits, least significant first, when the last 3 bits, most significant
  first, equal \<open>7 - popcount v\<close>, and the failure value \<open>-1\<close> otherwise. It
  succeeds (returns a non-negative value) iff the check field equals the zero count,
  and a returned value is at most 127.
\<close>

theorem sym_decode_refines_decode_spec:
  assumes "length b = 10" and "set b \<subseteq> {0, 1}"
  shows "sym_decode b =
           (case decode_spec (map (\<lambda>x. x = 1) b) of Some v \<Rightarrow> int v | None \<Rightarrow> - 1)
         \<and> (0 \<le> sym_decode b \<longleftrightarrow>
              check_field (map (\<lambda>x. x = 1) b) = 7 - popcount (data_value (map (\<lambda>x. x = 1) b)))
         \<and> sym_decode b \<le> 127"
proof -
  define cs where "cs = map (\<lambda>x. x = 1) b"
  have "length cs = 10"
    using assms(1) by (simp add: cs_def)
  then obtain c0 c1 c2 c3 c4 c5 c6 c7 c8 c9
    where cs: "cs = [c0, c1, c2, c3, c4, c5, c6, c7, c8, c9]"
    by (rule list10)
  have b: "b = map of_bool cs"
    using bits_of_bool [OF assms(2)] by (simp add: cs_def)
  have eq: "sym_decode (map of_bool cs) = (case decode_spec cs of Some v \<Rightarrow> int v | None \<Rightarrow> - 1)"
    unfolding cs by (rule sym_decode_bools)
  have le: "data_value cs \<le> 127"
    unfolding cs using data_value_le [of c0 c1 c2 c3 c4 c5 c6 "[c7, c8, c9]"] by simp
  have "sym_decode b =
           (case decode_spec cs of Some v \<Rightarrow> int v | None \<Rightarrow> - 1)
         \<and> (0 \<le> sym_decode b \<longleftrightarrow> check_field cs = 7 - popcount (data_value cs))
         \<and> sym_decode b \<le> 127"
    unfolding b eq using le by (simp add: decode_spec_def Let_def)
  then show ?thesis
    unfolding cs_def .
qed

theorem sym_decode_refines_decode_spec_witness:
  "length [1, 0, 1, 1, 1, 1, 1, 0, 0, 1 :: uint8] = 10
   \<and> set [1, 0, 1, 1, 1, 1, 1, 0, 0, 1 :: uint8] \<subseteq> {0, 1}
   \<and> decode_spec [True, False, True, True, True, True, True, False, False, True] = Some 125
   \<and> sym_decode [1, 0, 1, 1, 1, 1, 1, 0, 0, 1] = 125"
proof -
  have l: "length [1, 0, 1, 1, 1, 1, 1, 0, 0, 1 :: uint8] = 10" by simp
  have m: "set [1, 0, 1, 1, 1, 1, 1, 0, 0, 1 :: uint8] \<subseteq> {0, 1}" by simp
  have d: "decode_spec [True, False, True, True, True, True, True, False, False, True] = Some 125"
    by code_simp
  have "sym_decode [1, 0, 1, 1, 1, 1, 1, 0, 0, 1] =
          (case decode_spec (map (\<lambda>x. x = 1) [1, 0, 1, 1, 1, 1, 1, 0, 0, 1 :: uint8]) of
             Some v \<Rightarrow> int v | None \<Rightarrow> - 1)"
    using sym_decode_refines_decode_spec [OF l m] by (rule conjunct1)
  then have "sym_decode [1, 0, 1, 1, 1, 1, 1, 0, 0, 1] = 125"
    by (simp add: d)
  with l m d show ?thesis by blast
qed

section \<open>The ring buffer is a queue\<close>

lemma c_rem_nonneg: "0 \<le> a \<Longrightarrow> 0 < b \<Longrightarrow> c_rem a b = a mod b"
proof -
  assume a: "0 \<le> a" and b: "0 < b"
  have "a = b * (a div b) + a mod b" by simp
  then have "a - b * (a div b) = a mod b" by linarith
  moreover have "sgn a * sgn b * (\<bar>a\<bar> div \<bar>b\<bar>) = a div b"
    using a b by (cases "a = 0") (simp_all add: sgn_if)
  ultimately show ?thesis by (simp add: c_rem_def)
qed

lemma ring_slot_nonneg: "0 \<le> k \<Longrightarrow> ring_slot k = Some (nat (k mod RING))"
  by (simp add: ring_slot_def c_rem_nonneg RING_def Let_def)

lemma slot_distinct:
  assumes "0 \<le> i" "i < c" "c < RING"
  shows "(a + i) mod RING \<noteq> (a + c) mod RING"
proof
  assume "(a + i) mod RING = (a + c) mod RING"
  then have "RING dvd (a + c) - (a + i)"
    by (metis mod_eq_dvd_iff)
  then have "RING dvd c - i" by simp
  moreover have "0 < c - i" "c - i < RING" using assms by auto
  ultimately show False
    using zdvd_not_zless by blast
qed

lemma rpush_ok:
  assumes "ring_ok s" "rcnt s < RING" "rwr s < INT_MAX"
  shows "rpush b s = Some (s\<lparr>ring := (ring s)(nat (rwr s mod RING) := word_of_int b),
                              rwr := rwr s + 1, rcnt := rcnt s + 1\<rparr>)"
  using assms
  by (simp add: rpush_def ring_ok_def ring_slot_nonneg int_incr_def RING_def INT_MAX_def)

lemma queue_push:
  assumes "ring_ok s" "rcnt s < RING"
  shows "queue (s\<lparr>ring := (ring s)(nat (rwr s mod RING) := x), rwr := w, rcnt := rcnt s + 1\<rparr>)
           = queue s @ [x]"
proof -
  have n: "nat (rcnt s + 1) = Suc (nat (rcnt s))"
    using assms by (simp add: ring_ok_def nat_add_distrib)
  have w: "rwr s = rrd s + rcnt s" and r0: "0 \<le> rrd s" and c0: "0 \<le> rcnt s"
    using assms by (simp_all add: ring_ok_def)
  have d: "nat ((rrd s + int i) mod RING) \<noteq> nat (rwr s mod RING)" if "i < nat (rcnt s)" for i
  proof -
    have "(rrd s + int i) mod RING \<noteq> (rrd s + rcnt s) mod RING"
      using that assms(2) by (intro slot_distinct) auto
    moreover have "0 \<le> (rrd s + int i) mod RING" "0 \<le> (rrd s + rcnt s) mod RING"
      by (simp_all add: RING_def)
    ultimately show ?thesis unfolding w by (simp add: nat_eq_iff)
  qed
  show ?thesis
    unfolding queue_def using d c0 by (simp add: n w)
qed

lemma rpop_ok:
  assumes "ring_ok s" "0 < rcnt s"
  shows "rpop s = Some (uint (ring s (nat (rrd s mod RING))), s\<lparr>rcnt := rcnt s - 1, rrd := rrd s + 1\<rparr>)"
  using assms
  by (simp add: rpop_def ring_ok_def ring_slot_nonneg int_incr_def int_decr_def RING_def INT_MAX_def)

lemma queue_pop:
  assumes "0 < rcnt s"
  shows "queue s = ring s (nat (rrd s mod RING)) # queue (s\<lparr>rcnt := rcnt s - 1, rrd := rrd s + 1\<rparr>)"
proof -
  have "nat (rcnt s) = Suc (nat (rcnt s - 1))" using assms by simp
  then have "[0..<nat (rcnt s)] = 0 # map Suc [0..<nat (rcnt s - 1)]"
    by (simp add: upt_conv_Cons map_Suc_upt del: upt_Suc)
  then show ?thesis
    by (simp add: queue_def o_def add.assoc)
qed

lemma ring_ok_pop: "ring_ok s \<Longrightarrow> 0 < rcnt s \<Longrightarrow> ring_ok (s\<lparr>rcnt := rcnt s - 1, rrd := rrd s + 1\<rparr>)"
  by (simp add: ring_ok_def)

lemma ring_ok_push:
  "ring_ok s \<Longrightarrow> rcnt s < RING \<Longrightarrow> rwr s < INT_MAX \<Longrightarrow>
     ring_ok (s\<lparr>ring := r, rwr := rwr s + 1, rcnt := rcnt s + 1\<rparr>)"
  by (simp add: ring_ok_def)

lemma rpop_n_ok:
  assumes "ring_ok s" "int n \<le> rcnt s"
  shows "rpop_n n s = Some (map uint (take n (queue s)), s\<lparr>rcnt := rcnt s - int n, rrd := rrd s + int n\<rparr>)"
  using assms
proof (induction n arbitrary: s)
  case 0
  then show ?case by simp
next
  case (Suc n)
  define s1 where "s1 = s\<lparr>rcnt := rcnt s - 1, rrd := rrd s + 1\<rparr>"
  have pos: "0 < rcnt s" using Suc.prems by simp
  have p: "rpop s = Some (uint (ring s (nat (rrd s mod RING))), s1)"
    unfolding s1_def using Suc.prems pos by (intro rpop_ok)
  have ok1: "ring_ok s1"
    unfolding s1_def using Suc.prems pos by (intro ring_ok_pop)
  have "int n \<le> rcnt s1" using Suc.prems by (simp add: s1_def)
  from Suc.IH [OF ok1 this]
  have ih: "rpop_n n s1 = Some (map uint (take n (queue s1)), s1\<lparr>rcnt := rcnt s1 - int n, rrd := rrd s1 + int n\<rparr>)" .
  have q: "queue s = ring s (nat (rrd s mod RING)) # queue s1"
    unfolding s1_def using pos by (rule queue_pop)
  have r: "s1\<lparr>rcnt := rcnt s1 - int n, rrd := rrd s1 + int n\<rparr>
             = s\<lparr>rcnt := rcnt s - int (Suc n), rrd := rrd s + int (Suc n)\<rparr>"
    by (simp add: s1_def algebra_simps)
  show ?case
    unfolding rpop_n.simps p q by (simp add: ih r del: of_nat_Suc)
qed

lemma queue_drop:
  assumes "int n \<le> rcnt s"
  shows "queue (s\<lparr>rcnt := rcnt s - int n, rrd := rrd s + int n\<rparr>) = drop n (queue s)"
proof -
  have le: "n \<le> nat (rcnt s)" using assms by simp
  have "nat (rcnt s - int n) = nat (rcnt s) - n" using assms by simp
  moreover have "drop n (queue s) = map (\<lambda>i. ring s (nat ((rrd s + int i) mod RING))) [n..<nat (rcnt s)]"
    by (simp add: queue_def drop_map)
  moreover have "[n..<nat (rcnt s)] = map (\<lambda>i. i + n) [0..<nat (rcnt s) - n]"
    using le by (simp add: map_add_upt)
  ultimately show ?thesis
    by (simp add: queue_def o_def algebra_simps)
qed

lemma length_queue: "length (queue s) = nat (rcnt s)"
  by (simp add: queue_def)

lemma those_map_Some: "those (map (\<lambda>i. Some (f i)) xs) = Some (map f xs)"
  by (induction xs) simp_all

lemma rpeek_ok:
  assumes "ring_ok s" "i < nat (rcnt s)"
  shows "rpeek (int i) s = Some (uint (queue s ! i))"
proof -
  have "rrd s + int i \<le> INT_MAX" "0 \<le> rrd s + int i"
    using assms by (auto simp: ring_ok_def)
  then show ?thesis
    using assms by (simp add: rpeek_def int_add_def ring_slot_nonneg queue_def INT_MAX_def)
qed

lemma map_nth_take: "n \<le> length xs \<Longrightarrow> map (\<lambda>i. xs ! i) [0..<n] = take n xs"
  by (rule nth_equalityI) auto

lemma peek_raw_ok:
  assumes "ring_ok s" "10 \<le> rcnt s"
  shows "peek_raw s = Some (take 10 (queue s))"
proof -
  have m: "map (\<lambda>i. rpeek (int i) s) [0..<10] = map (\<lambda>i. Some (uint (queue s ! i))) [0..<10]"
  proof (rule map_cong [OF refl])
    fix i assume "i \<in> set [0..<10]"
    then have "i < nat (rcnt s)" using assms(2) by simp
    with assms(1) show "rpeek (int i) s = Some (uint (queue s ! i))" by (rule rpeek_ok)
  qed
  have "peek_raw s = map_option (map word_of_int) (those (map (\<lambda>i. Some (uint (queue s ! i))) [0..<10]))"
    unfolding peek_raw_def m ..
  also have "\<dots> = Some (map (\<lambda>i. queue s ! i) [0..<10])"
    unfolding those_map_Some by (simp add: o_def)
  also have "map (\<lambda>i. queue s ! i) [0..<10] = take 10 (queue s)"
    using assms(2) by (intro map_nth_take) (simp add: length_queue)
  finally show ?thesis .
qed

section \<open>SEARCHING: the sliding search for the phasing symbol\<close>

lemma hunt_loop_refines:
  assumes "ring_ok s"
  shows "\<exists>k. int k \<le> rcnt s \<and> fst (hunt_spec (queue s)) = drop k (queue s) \<and>
             hunt_loop s =
               Some (if snd (hunt_spec (queue s))
                     then s\<lparr>rcnt := rcnt s - int k, rrd := rrd s + int k, state := LOCKED,
                            sym_bit := 0, dcnt := 0, started := False, parity := 0\<rparr>
                     else s\<lparr>rcnt := rcnt s - int k, rrd := rrd s + int k\<rparr>)"
  using assms
proof (induction s rule: hunt_loop.induct)
  case (1 s)
  note ok = \<open>ring_ok s\<close>
  show ?case
  proof (cases "10 \<le> rcnt s")
    case False
    then have "length (queue s) < 10" by (simp add: length_queue)
    then have "hunt_spec (queue s) = (queue s, False)"
      by (subst hunt_spec.simps) simp
    moreover have "hunt_loop s = Some s"
      using False by (subst hunt_loop.simps) simp
    ultimately show ?thesis
      using ok by (intro exI [of _ 0]) (simp add: ring_ok_def)
  next
    case True
    then have len: "10 \<le> length (queue s)" by (simp add: length_queue)
    have pk: "peek_raw s = Some (take 10 (queue s))"
      using ok True by (rule peek_raw_ok)
    show ?thesis
    proof (cases "sym_decode (take 10 (queue s)) = SYM_DX")
      case dx: True
      have "hunt_spec (queue s) = (drop 10 (queue s), True)"
        using len dx by (subst hunt_spec.simps) simp
      moreover have "rpop_n 10 s = Some (map uint (take 10 (queue s)), s\<lparr>rcnt := rcnt s - int 10, rrd := rrd s + int 10\<rparr>)"
        using ok True by (intro rpop_n_ok) simp_all
      then have "hunt_loop s = Some (s\<lparr>rcnt := rcnt s - int 10, rrd := rrd s + int 10, state := LOCKED,
                            sym_bit := 0, dcnt := 0, started := False, parity := 0\<rparr>)"
        using True dx by (subst hunt_loop.simps) (simp add: pk)
      ultimately show ?thesis
        using True by (intro exI [of _ 10]) simp
    next
      case nodx: False
      define s1 where "s1 = s\<lparr>rcnt := rcnt s - 1, rrd := rrd s + 1\<rparr>"
      have pos: "0 < rcnt s" using True by simp
      have p: "rpop s = Some (uint (ring s (nat (rrd s mod RING))), s1)"
        unfolding s1_def using ok pos by (rule rpop_ok)
      have ok1: "ring_ok s1"
        unfolding s1_def using ok pos by (rule ring_ok_pop)
      have q: "queue s = ring s (nat (rrd s mod RING)) # queue s1"
        unfolding s1_def using pos by (rule queue_pop)
      from "1.IH" [OF True pk nodx p refl ok1]
      obtain k where k: "int k \<le> rcnt s1" "fst (hunt_spec (queue s1)) = drop k (queue s1)"
        "hunt_loop s1 =
               Some (if snd (hunt_spec (queue s1))
                     then s1\<lparr>rcnt := rcnt s1 - int k, rrd := rrd s1 + int k, state := LOCKED,
                            sym_bit := 0, dcnt := 0, started := False, parity := 0\<rparr>
                     else s1\<lparr>rcnt := rcnt s1 - int k, rrd := rrd s1 + int k\<rparr>)"
        by blast
      have hs: "hunt_spec (queue s) = hunt_spec (queue s1)"
        using len nodx by (subst hunt_spec.simps) (simp add: q)
      have hl: "hunt_loop s = hunt_loop s1"
        using True nodx by (subst hunt_loop.simps) (simp add: pk p)
      have r: "s1\<lparr>rcnt := rcnt s1 - int k, rrd := rrd s1 + int k\<rparr>
                 = s\<lparr>rcnt := rcnt s - int (Suc k), rrd := rrd s + int (Suc k)\<rparr>"
        by (simp add: s1_def algebra_simps)
      have r': "s1\<lparr>rcnt := rcnt s1 - int k, rrd := rrd s1 + int k, state := LOCKED,
                            sym_bit := 0, dcnt := 0, started := False, parity := 0\<rparr>
                 = s\<lparr>rcnt := rcnt s - int (Suc k), rrd := rrd s + int (Suc k), state := LOCKED,
                            sym_bit := 0, dcnt := 0, started := False, parity := 0\<rparr>"
        by (simp add: s1_def algebra_simps)
      have "int (Suc k) \<le> rcnt s" using k(1) by (simp add: s1_def)
      moreover have "fst (hunt_spec (queue s)) = drop (Suc k) (queue s)"
        unfolding hs k(2) by (simp add: q)
      moreover note k(3) [unfolded r r']
      ultimately show ?thesis
        unfolding hl hs by (intro exI [of _ "Suc k"]) (simp del: of_nat_Suc)
    qed
  qed
qed


lemma hunt_spec_short: "\<not> snd (hunt_spec q) \<Longrightarrow> length (fst (hunt_spec q)) < 10"
proof (induction q rule: hunt_spec.induct)
  case (1 q)
  show ?case
  proof (cases "10 \<le> length q")
    case False
    then show ?thesis by (subst hunt_spec.simps) simp
  next
    case True
    show ?thesis
    proof (cases "sym_decode (take 10 q) = SYM_DX")
      case dx: True
      with True have "snd (hunt_spec q)" by (subst hunt_spec.simps) simp
      with "1.prems" show ?thesis by simp
    next
      case False
      with True have eq: "hunt_spec q = hunt_spec (tl q)" by (subst hunt_spec.simps) simp
      with "1.IH" [OF True False] "1.prems" show ?thesis by simp
    qed
  qed
qed

text \<open>
  C1. In HUNT mode, with the ring in order and room for one more bit, processing a newly
  classified bit \<open>b\<close> appends it to the ring window and then does what the
  specification's search does on that window: as long as at least 10 bits are held the
  oldest 10 are decoded without being removed; on the phasing symbol 125 exactly those
  10 bits are consumed, the state becomes LOCKED and the bit-offset counter, the started
  flag, the alternation counter and the digit count are reset; otherwise only the oldest
  bit is dropped and the search retries, until fewer than 10 bits remain. Nothing is
  written, and without a lock the collection variables are left alone.
\<close>

theorem hunt_bit_refines_hunt_spec:
  assumes "state s = HUNT" and "ring_ok s" and "rcnt s < RING" and "rwr s < INT_MAX"
  shows "\<exists>s'. process_bit b s = Some s' \<and>
           queue s' = fst (hunt_spec (queue s @ [word_of_int b])) \<and>
           out s' = out s \<and>
           (if snd (hunt_spec (queue s @ [word_of_int b]))
            then state s' = LOCKED \<and> sym_bit s' = 0 \<and> dcnt s' = 0 \<and> \<not> started s' \<and> parity s' = 0
            else state s' = HUNT \<and> length (queue s') < 10 \<and> sym_bit s' = sym_bit s \<and>
                 dcnt s' = dcnt s \<and> started s' = started s \<and> parity s' = parity s)"
proof -
  define s1 where "s1 = s\<lparr>ring := (ring s)(nat (rwr s mod RING) := word_of_int b),
                            rwr := rwr s + 1, rcnt := rcnt s + 1\<rparr>"
  have push: "rpush b s = Some s1"
    unfolding s1_def using assms(2-4) by (rule rpush_ok)
  have ok1: "ring_ok s1"
    unfolding s1_def using assms(2-4) by (rule ring_ok_push)
  have q1: "queue s1 = queue s @ [word_of_int b]"
    unfolding s1_def using assms(2,3) by (rule queue_push)
  have st1: "state s1 = HUNT" using assms(1) by (simp add: s1_def)
  have pb: "process_bit b s = hunt_loop s1"
    by (simp add: process_bit_def push st1)
  from hunt_loop_refines [OF ok1]
  obtain k where k: "int k \<le> rcnt s1" "fst (hunt_spec (queue s1)) = drop k (queue s1)"
    "hunt_loop s1 =
       Some (if snd (hunt_spec (queue s1))
             then s1\<lparr>rcnt := rcnt s1 - int k, rrd := rrd s1 + int k, state := LOCKED,
                    sym_bit := 0, dcnt := 0, started := False, parity := 0\<rparr>
             else s1\<lparr>rcnt := rcnt s1 - int k, rrd := rrd s1 + int k\<rparr>)"
    by blast
  have qd: "queue (s1\<lparr>rcnt := rcnt s1 - int k, rrd := rrd s1 + int k\<rparr>) = drop k (queue s1)"
    using k(1) by (rule queue_drop)
  have qd': "queue (s1\<lparr>rcnt := rcnt s1 - int k, rrd := rrd s1 + int k, state := LOCKED,
                    sym_bit := 0, dcnt := 0, started := False, parity := 0\<rparr>) = drop k (queue s1)"
    using qd by (simp add: queue_def)
  have short: "\<not> snd (hunt_spec (queue s1)) \<Longrightarrow> length (drop k (queue s1)) < 10"
    using hunt_spec_short [of "queue s1"] k(2) by simp
  show ?thesis
  proof (cases "snd (hunt_spec (queue s1))")
    case True
    then show ?thesis
      unfolding pb k(3) q1 [symmetric] using qd' k(2) by (simp add: s1_def)
  next
    case False
    then show ?thesis
      unfolding pb k(3) q1 [symmetric] using qd k(2) short assms(1) by (simp add: s1_def)
  qed
qed

lemma dx_prefix_queue: "queue dx_prefix_state = [1, 0, 1, 1, 1, 1, 1, 0, 0]"
  by (simp add: queue_def dx_prefix_state_def RING_def upt_rec)

lemma sym_decode_dx: "sym_decode [1, 0, 1, 1, 1, 1, 1, 0, 0, 1] = SYM_DX"
  by (simp add: sym_decode_def builtin_popcount_def upt_rec SYM_DX_def)

theorem hunt_bit_refines_hunt_spec_witness:
  "state dx_prefix_state = HUNT \<and> ring_ok dx_prefix_state \<and> rcnt dx_prefix_state < RING \<and>
   rwr dx_prefix_state < INT_MAX \<and>
   hunt_spec (queue dx_prefix_state @ [word_of_int 1]) = ([], True) \<and>
   (\<exists>s'. process_bit 1 dx_prefix_state = Some s' \<and> queue s' = [] \<and> out s' = [] \<and>
       state s' = LOCKED \<and> sym_bit s' = 0 \<and> dcnt s' = 0 \<and> \<not> started s' \<and> parity s' = 0)"
proof -
  have h: "state dx_prefix_state = HUNT" "ring_ok dx_prefix_state" "rcnt dx_prefix_state < RING"
    "rwr dx_prefix_state < INT_MAX"
    by (simp_all add: dx_prefix_state_def ring_ok_def RING_def INT_MAX_def)
  have hs: "hunt_spec (queue dx_prefix_state @ [word_of_int 1]) = ([], True)"
    unfolding dx_prefix_queue by (subst hunt_spec.simps) (simp add: sym_decode_dx)
  have o: "out dx_prefix_state = []" by (simp add: dx_prefix_state_def)
  show ?thesis
    using hunt_bit_refines_hunt_spec [OF h, of 1] h unfolding hs o by simp
qed

section \<open>LOCKED: ten bits to a symbol\<close>

lemma process_bits_append:
  "process_bits (as @ bs) s = process_bits as s \<bind> process_bits bs"
proof (induction as arbitrary: s)
  case Nil
  show ?case by simp
next
  case (Cons a as)
  show ?case by (cases "process_bit a s") (simp_all add: Cons.IH)
qed

lemma process_bits_single: "process_bits [b] s = process_bit b s"
  by (cases "process_bit b s") simp_all

lemma locked_bit_step:
  assumes "state s = LOCKED" and "ring_ok s" and "rcnt s = sym_bit s" and "sym_bit s \<le> 9"
    and "rwr s < INT_MAX"
  shows "process_bit b s =
           (if sym_bit s < 9
            then Some (s\<lparr>ring := (ring s)(nat (rwr s mod RING) := word_of_int b),
                        rwr := rwr s + 1, rcnt := rcnt s + 1, sym_bit := sym_bit s + 1\<rparr>)
            else let s0 = s\<lparr>ring := (ring s)(nat (rwr s mod RING) := word_of_int b),
                            rwr := rwr s + 1, rcnt := 0, rrd := rrd s + 10, sym_bit := 0\<rparr>;
                     v = sym_decode (queue s @ [word_of_int b])
                 in if v < 0 then Some (s0\<lparr>state := HUNT, dcnt := 0, started := False\<rparr>)
                    else on_symbol v s0)"
proof -
  define s1 where "s1 = s\<lparr>ring := (ring s)(nat (rwr s mod RING) := word_of_int b),
                            rwr := rwr s + 1, rcnt := rcnt s + 1\<rparr>"
  have lt: "rcnt s < RING" using assms(3,4) by (simp add: RING_def)
  have push: "rpush b s = Some s1"
    unfolding s1_def using assms(2) lt assms(5) by (rule rpush_ok)
  have ok1: "ring_ok s1"
    unfolding s1_def using assms(2) lt assms(5) by (rule ring_ok_push)
  have q1: "queue s1 = queue s @ [word_of_int b]"
    unfolding s1_def using assms(2) lt by (rule queue_push)
  have pb: "process_bit b s = locked_bit s1"
    using assms(1) by (simp add: process_bit_def push s1_def)
  have inc: "int_incr (sym_bit s1) = Some (sym_bit s + 1)"
    using assms(4) by (simp add: int_incr_def s1_def INT_MAX_def)
  show ?thesis
  proof (cases "sym_bit s < 9")
    case True
    then show ?thesis
      unfolding pb by (simp add: locked_bit_def inc) (simp add: s1_def)
  next
    case False
    then have nine: "sym_bit s = 9" using assms(4) by simp
    define s2 where "s2 = s1\<lparr>sym_bit := 0\<rparr>"
    have ok2: "ring_ok s2" using ok1 by (simp add: s2_def ring_ok_def)
    have c2: "int 10 \<le> rcnt s2" using nine assms(3) by (simp add: s2_def s1_def)
    have q2: "queue s2 = queue s @ [word_of_int b]"
      using q1 by (simp add: s2_def queue_def)
    have "length (queue s2) = 10"
      using nine assms(3) by (simp add: length_queue s2_def s1_def)
    then have tk: "take 10 (queue s2) = queue s2" by simp
    have pop: "rpop_n 10 s2 = Some (map uint (queue s2), s2\<lparr>rcnt := rcnt s2 - int 10, rrd := rrd s2 + int 10\<rparr>)"
      using rpop_n_ok [OF ok2 c2] unfolding tk .
    have rec: "s2\<lparr>rcnt := rcnt s2 - int 10, rrd := rrd s2 + int 10\<rparr>
                = s\<lparr>ring := (ring s)(nat (rwr s mod RING) := word_of_int b),
                            rwr := rwr s + 1, rcnt := 0, rrd := rrd s + 10, sym_bit := 0\<rparr>"
      using nine assms(3) by (simp add: s2_def s1_def)
    have lb: "locked_bit s1 =
       (let v = sym_decode (queue s2); s3 = s2\<lparr>rcnt := rcnt s2 - int 10, rrd := rrd s2 + int 10\<rparr>
        in if v < 0 then Some (s3\<lparr>state := HUNT, dcnt := 0, started := False\<rparr>) else on_symbol v s3)"
      using nine by (simp add: locked_bit_def inc s2_def [symmetric] pop o_def Let_def)
    show ?thesis
      unfolding pb lb rec q2 using nine by (simp add: Let_def)
  qed
qed


lemma locked_accumulate:
  assumes "state s = LOCKED" and "ring_ok s" and "rcnt s = sym_bit s"
    and "sym_bit s + int (length bs) \<le> 9" and "rwr s + int (length bs) \<le> INT_MAX"
  shows "\<exists>s'. process_bits bs s = Some s' \<and>
           s'\<lparr>ring := ring s, rwr := rwr s, rcnt := rcnt s, sym_bit := sym_bit s\<rparr> = s \<and>
           ring_ok s' \<and> queue s' = queue s @ map word_of_int bs \<and> rcnt s' = sym_bit s' \<and>
           sym_bit s' = sym_bit s + int (length bs) \<and> rwr s' = rwr s + int (length bs)"
  using assms
proof (induction bs arbitrary: s)
  case Nil
  then show ?case by simp
next
  case (Cons b bs)
  define s1 where "s1 = s\<lparr>ring := (ring s)(nat (rwr s mod RING) := word_of_int b),
                        rwr := rwr s + 1, rcnt := rcnt s + 1, sym_bit := sym_bit s + 1\<rparr>"
  have lt: "sym_bit s < 9" "sym_bit s \<le> 9" "rwr s < INT_MAX" "rcnt s < RING"
    using Cons.prems by (simp_all add: RING_def)
  have step: "process_bit b s = Some s1"
    using locked_bit_step [OF Cons.prems(1-3) lt(2,3), where b = b] lt(1) by (simp add: s1_def)
  have ok1: "ring_ok s1"
    using ring_ok_push [OF Cons.prems(2) lt(4,3)] by (simp add: s1_def ring_ok_def)
  have q1: "queue s1 = queue s @ [word_of_int b]"
    using queue_push [OF Cons.prems(2) lt(4), where x = "word_of_int b" and w = "rwr s + 1"]
    by (simp add: s1_def queue_def)
  have pre: "state s1 = LOCKED" "rcnt s1 = sym_bit s1" "sym_bit s1 + int (length bs) \<le> 9"
    "rwr s1 + int (length bs) \<le> INT_MAX"
    using Cons.prems by (simp_all add: s1_def)
  from Cons.IH [OF pre(1) ok1 pre(2-4)]
  obtain s' where s': "process_bits bs s1 = Some s'"
    "s'\<lparr>ring := ring s1, rwr := rwr s1, rcnt := rcnt s1, sym_bit := sym_bit s1\<rparr> = s1"
    "ring_ok s'" "queue s' = queue s1 @ map word_of_int bs" "rcnt s' = sym_bit s'"
    "sym_bit s' = sym_bit s1 + int (length bs)" "rwr s' = rwr s1 + int (length bs)"
    by blast
  have "s'\<lparr>ring := ring s, rwr := rwr s, rcnt := rcnt s, sym_bit := sym_bit s\<rparr>
          = (s'\<lparr>ring := ring s1, rwr := rwr s1, rcnt := rcnt s1, sym_bit := sym_bit s1\<rparr>)
              \<lparr>ring := ring s, rwr := rwr s, rcnt := rcnt s, sym_bit := sym_bit s\<rparr>"
    by simp
  also have "\<dots> = s"
    unfolding s'(2) by (simp add: s1_def)
  finally have frame: "s'\<lparr>ring := ring s, rwr := rwr s, rcnt := rcnt s, sym_bit := sym_bit s\<rparr> = s" .
  have f1: "sym_bit s1 = sym_bit s + 1" "rwr s1 = rwr s + 1"
    by (simp_all add: s1_def)
  show ?case
    using s'(1,3-7) frame by (simp add: step q1 f1)
qed


section \<open>While SEARCHING the alternation counter is dead\<close>

text \<open>
  The search never reads \<^verbatim>\<open>parity\<close>, and a lock overwrites it: whatever value it
  has in a SEARCHING state, the program goes on to write the same.
\<close>

lemma rpush_parity: "rpush b (s\<lparr>parity := p\<rparr>) = map_option (\<lambda>u. u\<lparr>parity := p\<rparr>) (rpush b s)"
  by (simp add: rpush_def split: bind_split)

lemma rpop_parity:
  "rpop (s\<lparr>parity := p\<rparr>) = map_option (\<lambda>(x, u). (x, u\<lparr>parity := p\<rparr>)) (rpop s)"
  by (simp add: rpop_def split: bind_split)

lemma rpop_n_parity:
  "rpop_n n (s\<lparr>parity := p\<rparr>) = map_option (\<lambda>(x, u). (x, u\<lparr>parity := p\<rparr>)) (rpop_n n s)"
proof (induction n arbitrary: s)
  case 0
  show ?case by simp
next
  case (Suc n)
  show ?case
    by (cases "rpop s") (auto simp: rpop_parity Suc.IH split: bind_split)
qed

lemma peek_raw_parity: "peek_raw (s\<lparr>parity := p\<rparr>) = peek_raw s"
  by (simp add: peek_raw_def rpeek_def)

lemma hunt_loop_parity:
  "state s = HUNT \<Longrightarrow> rel_option (parity_dead p) (hunt_loop (s\<lparr>parity := p\<rparr>)) (hunt_loop s)"
proof (induction s rule: hunt_loop.induct)
  case (1 s)
  show ?case
  proof (cases "10 \<le> rcnt s")
    case False
    then show ?thesis
      using "1.prems" by (simp add: hunt_loop.simps [of s] hunt_loop.simps [of "s\<lparr>parity := p\<rparr>"] parity_dead_def)
  next
    case True
    show ?thesis
    proof (cases "peek_raw s")
      case None
      then show ?thesis
        using True by (simp add: hunt_loop.simps [of s] hunt_loop.simps [of "s\<lparr>parity := p\<rparr>"] peek_raw_parity)
    next
      case (Some raw)
      show ?thesis
      proof (cases "sym_decode raw = SYM_DX")
        case dx: True
        show ?thesis
          using True Some dx
          by (cases "rpop_n 10 s")
             (auto simp: hunt_loop.simps [of s] hunt_loop.simps [of "s\<lparr>parity := p\<rparr>"]
                peek_raw_parity rpop_n_parity parity_dead_def)
      next
        case nodx: False
        show ?thesis
        proof (cases "rpop s")
          case None
          then show ?thesis
            using True Some nodx
            by (simp add: hunt_loop.simps [of s] hunt_loop.simps [of "s\<lparr>parity := p\<rparr>"]
                peek_raw_parity rpop_parity)
        next
          case (Some xs1)
          obtain x s1 where xs1: "xs1 = (x, s1)" by (cases xs1)
          have st1: "state s1 = HUNT"
            using Some "1.prems" unfolding xs1 by (auto simp: rpop_def split: bind_splits)
          have "rel_option (parity_dead p) (hunt_loop (s1\<lparr>parity := p\<rparr>)) (hunt_loop s1)"
            using "1.IH" [OF True \<open>peek_raw s = Some raw\<close> nodx Some [unfolded xs1] refl st1] .
          then show ?thesis
            using True \<open>peek_raw s = Some raw\<close> nodx Some xs1
            by (simp add: hunt_loop.simps [of s] hunt_loop.simps [of "s\<lparr>parity := p\<rparr>"]
                peek_raw_parity rpop_parity)
        qed
      qed
    qed
  qed
qed

lemma feed_sample_parity:
  assumes "parity_dead p t s"
  shows "rel_option (parity_dead p) (feed_sample cls x t) (feed_sample cls x s)"
proof (cases "t = s")
  case True
  then show ?thesis
    by (cases "feed_sample cls x s") (simp_all add: parity_dead_def)
next
  case False
  with assms have h: "state s = HUNT" and t: "t = s\<lparr>parity := p\<rparr>"
    by (simp_all add: parity_dead_def)
  show ?thesis
  proof (cases "0 \<le> sn s \<and> sn s < SPB")
    case False
    then show ?thesis by (auto simp: feed_sample_def t)
  next
    case rng: True
    show ?thesis
    proof (cases "sn s + 1 < SPB")
      case True
      then show ?thesis
        using rng h by (simp add: feed_sample_def t parity_dead_def)
    next
      case False
      define s2 where "s2 = s\<lparr>sb := (sb s)(nat (sn s) := x), sn := 0\<rparr>"
      define b :: int where "b = (if cls (window s2) then 1 else 0)"
      have w: "window (s2\<lparr>parity := p\<rparr>) = window s2" by (simp add: window_def)
      have fs: "feed_sample cls x s = process_bit b s2"
        using rng False by (simp add: feed_sample_def s2_def b_def Let_def)
      have sw: "s\<lparr>parity := p, sb := (sb s)(nat (sn s) := x), sn := 0\<rparr> = s2\<lparr>parity := p\<rparr>"
        unfolding s2_def by (cases s) simp
      have ft: "feed_sample cls x t = process_bit b (s2\<lparr>parity := p\<rparr>)"
        using rng False unfolding sw [symmetric]
        by (simp add: feed_sample_def t s2_def b_def Let_def window_def)
      have h2: "state s2 = HUNT" using h by (simp add: s2_def)
      show ?thesis
      proof (cases "rpush b s2")
        case None
        then show ?thesis
          unfolding fs ft by (simp add: process_bit_def rpush_parity)
      next
        case (Some s3)
        have h3: "state s3 = HUNT"
          using Some h2 by (auto simp: rpush_def split: bind_splits)
        show ?thesis
          unfolding fs ft using hunt_loop_parity [OF h3, of p] h3
          by (simp add: process_bit_def rpush_parity Some)
      qed
    qed
  qed
qed

lemma run_parity:
  "parity_dead p t s \<Longrightarrow> rel_option (parity_dead p) (run cls xs t) (run cls xs s)"
proof (induction xs arbitrary: t s)
  case Nil
  then show ?case by simp
next
  case (Cons x xs)
  from feed_sample_parity [OF Cons.prems, of cls x]
  show ?case
  proof (cases rule: option.rel_cases)
    case None
    then show ?thesis by simp
  next
    case (Some t1 s1)
    then show ?thesis using Cons.IH [of t1 s1] by simp
  qed
qed

lemma hunt_forgets_parity:
  assumes "state s = HUNT"
  shows "map_option out (run cls xs (s\<lparr>parity := p\<rparr>)) = map_option out (run cls xs s)"
proof -
  have "parity_dead p (s\<lparr>parity := p\<rparr>) s"
    using assms by (simp add: parity_dead_def)
  from run_parity [OF this, of cls xs]
  show ?thesis
    by (cases rule: option.rel_cases) (auto simp: parity_dead_def)
qed


text \<open>
  C4. While LOCKED, from a symbol boundary (empty ring, bit offset 0) and for any ten
  bits \<open>bs\<close>: after each of the first nine bits only the ring and the bit offset have
  changed, so no decode has happened; the tenth bit makes \<open>sym_decode\<close> run on exactly
  these ten bits, which leaves the ring empty and the bit offset 0 for the next group.
  When that decode fails, the state is SEARCHING, the started flag and the digit count
  are reset, nothing has been written, and the alternation counter, though not
  overwritten, has no influence on anything written later. When it succeeds the value
  goes to \<open>on_symbol\<close>.
\<close>

theorem locked_group_decode:
  assumes "state s = LOCKED" and "ring_ok s" and "rcnt s = 0" and "sym_bit s = 0"
    and "rwr s + 10 \<le> INT_MAX" and "length bs = 10"
  shows "(\<forall>n<10. \<exists>s'. process_bits (take n bs) s = Some s' \<and>
             s'\<lparr>ring := ring s, rwr := rwr s, rcnt := rcnt s, sym_bit := sym_bit s\<rparr> = s \<and>
             queue s' = map word_of_int (take n bs) \<and> sym_bit s' = int n)
       \<and> (\<exists>s0. s0\<lparr>ring := ring s, rwr := rwr s, rrd := rrd s\<rparr> = s \<and> queue s0 = [] \<and>
             process_bits bs s =
               (if sym_decode (map word_of_int bs) < 0
                then Some (s0\<lparr>state := HUNT, dcnt := 0, started := False\<rparr>)
                else on_symbol (sym_decode (map word_of_int bs)) s0))
       \<and> (sym_decode (map word_of_int bs) < 0 \<longrightarrow>
            (\<exists>s'. process_bits bs s = Some s' \<and> state s' = HUNT \<and> dcnt s' = 0 \<and> \<not> started s' \<and>
               out s' = out s \<and> queue s' = [] \<and>
               (\<forall>p cls xs. map_option out (run cls xs (s'\<lparr>parity := p\<rparr>))
                             = map_option out (run cls xs s'))))"
proof -
  have q0: "queue s = []" using assms(3) by (simp add: queue_def)
  have acc: "\<exists>s'. process_bits (take n bs) s = Some s' \<and>
             s'\<lparr>ring := ring s, rwr := rwr s, rcnt := rcnt s, sym_bit := sym_bit s\<rparr> = s \<and>
             ring_ok s' \<and> queue s' = map word_of_int (take n bs) \<and> rcnt s' = sym_bit s' \<and>
             sym_bit s' = int n \<and> rwr s' = rwr s + int n" if "n < 10" for n
  proof -
    have l: "length (take n bs) = n" using that assms(6) by simp
    have "sym_bit s + int (length (take n bs)) \<le> 9" "rwr s + int (length (take n bs)) \<le> INT_MAX"
      unfolding l using that assms(4,5) by simp_all
    from locked_accumulate [OF assms(1,2) _ this] assms(3,4)
    show ?thesis unfolding l q0 by simp
  qed
  from acc [of 9] obtain s9 where s9: "process_bits (take 9 bs) s = Some s9"
    "s9\<lparr>ring := ring s, rwr := rwr s, rcnt := rcnt s, sym_bit := sym_bit s\<rparr> = s"
    "ring_ok s9" "queue s9 = map word_of_int (take 9 bs)" "rcnt s9 = sym_bit s9"
    "sym_bit s9 = 9" "rwr s9 = rwr s + 9"
    by auto
  define b where "b = bs ! 9"
  have bs: "bs = take 9 bs @ [b]"
    using assms(6) by (simp add: b_def take_Suc_conv_app_nth [symmetric] del: upt_Suc)
  have st9: "state s9 = LOCKED"
    using arg_cong [OF s9(2), of state] assms(1) by simp
  have rrd9: "rrd s9 = rrd s"
    using arg_cong [OF s9(2), of rrd] by simp
  define s0 where "s0 = s9\<lparr>ring := (ring s9)(nat (rwr s9 mod RING) := word_of_int b),
                            rwr := rwr s9 + 1, rcnt := 0, rrd := rrd s9 + 10, sym_bit := 0\<rparr>"
  define v where "v = sym_decode (map word_of_int bs)"
  have raw: "queue s9 @ [word_of_int b] = map word_of_int bs"
    unfolding s9(4) by (subst (2) bs) simp
  have last: "process_bit b s9 =
      (if v < 0 then Some (s0\<lparr>state := HUNT, dcnt := 0, started := False\<rparr>) else on_symbol v s0)"
    using locked_bit_step [OF st9 s9(3) s9(5), where b = b] s9(6,7) assms(5)
    unfolding raw by (simp add: s0_def v_def Let_def)
  have all: "process_bits bs s =
      (if v < 0 then Some (s0\<lparr>state := HUNT, dcnt := 0, started := False\<rparr>) else on_symbol v s0)"
  proof -
    have "process_bits bs s = process_bits (take 9 bs) s \<bind> process_bits [b]"
      by (subst bs) (rule process_bits_append)
    also have "\<dots> = process_bit b s9"
      unfolding s9(1) by (simp add: process_bits_single del: process_bits.simps)
    finally show ?thesis unfolding last .
  qed
  have "s0\<lparr>ring := ring s, rwr := rwr s, rrd := rrd s\<rparr>
          = (s9\<lparr>ring := ring s, rwr := rwr s, rcnt := rcnt s, sym_bit := sym_bit s\<rparr>)\<lparr>rrd := rrd s\<rparr>"
    using assms(3,4) by (simp add: s0_def)
  also have "\<dots> = s" unfolding s9(2) by simp
  finally have frame: "s0\<lparr>ring := ring s, rwr := rwr s, rrd := rrd s\<rparr> = s" .
  have q00: "queue s0 = []" by (simp add: s0_def queue_def)
  have out0: "out s0 = out s"
    using arg_cong [OF frame, of out] by simp
  have c1: "\<forall>n<10. \<exists>s'. process_bits (take n bs) s = Some s' \<and>
             s'\<lparr>ring := ring s, rwr := rwr s, rcnt := rcnt s, sym_bit := sym_bit s\<rparr> = s \<and>
             queue s' = map word_of_int (take n bs) \<and> sym_bit s' = int n"
    using acc by blast
  have c2: "\<exists>s0. s0\<lparr>ring := ring s, rwr := rwr s, rrd := rrd s\<rparr> = s \<and> queue s0 = [] \<and>
             process_bits bs s =
               (if v < 0 then Some (s0\<lparr>state := HUNT, dcnt := 0, started := False\<rparr>)
                else on_symbol v s0)"
    using frame q00 all by blast
  have c3: "\<exists>s'. process_bits bs s = Some s' \<and> state s' = HUNT \<and> dcnt s' = 0 \<and> \<not> started s' \<and>
               out s' = out s \<and> queue s' = [] \<and>
               (\<forall>p cls xs. map_option out (run cls xs (s'\<lparr>parity := p\<rparr>))
                             = map_option out (run cls xs s'))" if "v < 0"
  proof (intro exI conjI allI)
    show "process_bits bs s = Some (s0\<lparr>state := HUNT, dcnt := 0, started := False\<rparr>)"
      using all that by simp
    show "queue (s0\<lparr>state := HUNT, dcnt := 0, started := False\<rparr>) = []"
      using q00 by (simp add: queue_def)
    show "map_option out (run cls xs (s0\<lparr>state := HUNT, dcnt := 0, started := False, parity := p\<rparr>))
            = map_option out (run cls xs (s0\<lparr>state := HUNT, dcnt := 0, started := False\<rparr>))"
      for p cls xs
      by (rule hunt_forgets_parity) simp
  qed (simp_all add: out0)
  show ?thesis
    using c1 c2 c3 unfolding v_def by blast
qed


theorem locked_group_decode_witness:
  "state locked_example = LOCKED \<and> ring_ok locked_example \<and> rcnt locked_example = 0 \<and>
   sym_bit locked_example = 0 \<and> rwr locked_example + 10 \<le> INT_MAX \<and>
   length [0, 0, 0, 0, 0, 0, 0, 0, 0, 0 :: int] = 10 \<and>
   sym_decode (map word_of_int [0, 0, 0, 0, 0, 0, 0, 0, 0, 0]) < 0 \<and>
   (\<exists>s'. process_bits [0, 0, 0, 0, 0, 0, 0, 0, 0, 0] locked_example = Some s' \<and> state s' = HUNT \<and>
      dcnt s' = 0 \<and> \<not> started s' \<and> out s' = [] \<and> queue s' = [])"
proof -
  have h: "state locked_example = LOCKED" "ring_ok locked_example" "rcnt locked_example = 0"
    "sym_bit locked_example = 0" "rwr locked_example + 10 \<le> INT_MAX"
    "length [0, 0, 0, 0, 0, 0, 0, 0, 0, 0 :: int] = 10"
    by (simp_all add: locked_example_def ring_ok_def RING_def INT_MAX_def)
  have d: "sym_decode (map word_of_int [0, 0, 0, 0, 0, 0, 0, 0, 0, 0]) < 0"
    by (simp add: sym_decode_def builtin_popcount_def upt_rec)
  have o: "out locked_example = []" by (simp add: locked_example_def)
  from locked_group_decode [OF h] d
  have "\<exists>s'. process_bits [0, 0, 0, 0, 0, 0, 0, 0, 0, 0] locked_example = Some s' \<and> state s' = HUNT \<and>
      dcnt s' = 0 \<and> \<not> started s' \<and> out s' = out locked_example \<and> queue s' = []"
    by blast
  with h d show ?thesis unfolding o by blast
qed

section \<open>The collector collects as specified\<close>

lemma c_rem_2: "c_rem p 2 = 0 \<longleftrightarrow> even p"
proof (cases "0 \<le> p")
  case True
  then show ?thesis by (simp add: c_rem_nonneg even_iff_mod_2_eq_zero)
next
  case False
  then have "c_rem p 2 = p + 2 * ((- p) div 2)"
    by (simp add: c_rem_def sgn_if)
  also have "\<dots> = - ((- p) mod 2)"
    by (simp add: minus_mod_eq_mult_div [symmetric])
  finally have "c_rem p 2 = - ((- p) mod 2)" .
  then show ?thesis by presburger
qed

lemma alternate_ok:
  assumes "0 \<le> dcnt s" and "dcnt s < 16" and "parity s < INT_MAX"
  shows "alternate v s =
           Some (if even (parity s) \<and> v \<le> 99
                 then s\<lparr>data := (data s)(nat (dcnt s) := v), dcnt := dcnt s + 1, parity := parity s + 1\<rparr>
                 else s\<lparr>parity := parity s + 1\<rparr>)"
  using assms by (simp add: alternate_def c_rem_2 int_incr_def INT_MAX_def)

lemma collection_append:
  assumes "0 \<le> dcnt s"
  shows "collection (s\<lparr>data := (data s)(nat (dcnt s) := v), dcnt := dcnt s + 1, parity := p, started := b\<rparr>)
           = (b, p, map (data s) [0..<nat (dcnt s)] @ [v])"
  using assms by (simp add: collection_def nat_add_distrib)

text \<open>
  C3. For a symbol value \<open>v\<close> handed to the collector while fewer than 5 values are held
  (as is the case whenever the program gets there): before the started flag is set a
  value above 99 changes nothing; otherwise the started flag, the alternation counter and
  the accepted sequence change as the specification's collector prescribes, that is, the
  first value of at most 99 sets the flag, resets the counter to 0 and is read; with the
  flag set an even counter means READ (append iff \<open>v \<le> 99\<close>) and an odd counter SKIP,
  and the counter is incremented in both cases. Nothing else changes, and the sequence is
  emitted iff it now holds 5 values.
\<close>

theorem on_symbol_refines_collector_spec:
  assumes "0 \<le> dcnt s" and "dcnt s < 5" and "parity s < INT_MAX"
  shows "(\<not> started s \<and> v > 99 \<longrightarrow> on_symbol v s = Some s \<and> collector_spec v (collection s) = collection s)
       \<and> (started s \<or> v \<le> 99 \<longrightarrow>
            (\<exists>s1. collection s1 = collector_spec v (collection s) \<and>
                  s1\<lparr>data := data s, dcnt := dcnt s, started := started s, parity := parity s\<rparr> = s \<and>
                  on_symbol v s = (if dcnt s1 = 5 then emit s1 else Some s1)))"
proof (intro conjI impI)
  assume "\<not> started s \<and> v > 99"
  then show "on_symbol v s = Some s" by (simp add: on_symbol_def)
next
  assume "\<not> started s \<and> v > 99"
  then show "collector_spec v (collection s) = collection s"
    by (simp add: collector_spec_def collection_def)
next
  assume a: "started s \<or> v \<le> 99"
  define s0 where "s0 = (if \<not> started s then s\<lparr>started := True, parity := 0\<rparr> else s)"
  define s1 where "s1 = (if even (parity s0) \<and> v \<le> 99
                 then s0\<lparr>data := (data s0)(nat (dcnt s0) := v), dcnt := dcnt s0 + 1, parity := parity s0 + 1\<rparr>
                 else s0\<lparr>parity := parity s0 + 1\<rparr>)"
  have pre: "0 \<le> dcnt s0" "dcnt s0 < 16" "parity s0 < INT_MAX"
    using assms by (simp_all add: s0_def INT_MAX_def)
  have alt: "alternate v s0 = Some s1"
    unfolding s1_def using pre by (rule alternate_ok)
  have na: "\<not> (\<not> started s \<and> v > 99)" using a by auto
  have os: "on_symbol v s = (if dcnt s1 = 5 then emit s1 else Some s1)"
    unfolding on_symbol_def Let_def s0_def [symmetric] using na by (auto simp: alt)
  have len: "length (map (data s) [0..<nat (dcnt s)]) < 5"
    using assms(1,2) by simp
  have col: "collection s1 = collector_spec v (collection s)"
    using a assms(1) len
    by (auto simp: s1_def s0_def collector_spec_def collection_def Let_def nat_add_distrib)
  have frame: "s1\<lparr>data := data s, dcnt := dcnt s, started := started s, parity := parity s\<rparr> = s"
    by (simp add: s1_def s0_def)
  show "\<exists>s1. collection s1 = collector_spec v (collection s) \<and>
                  s1\<lparr>data := data s, dcnt := dcnt s, started := started s, parity := parity s\<rparr> = s \<and>
                  on_symbol v s = (if dcnt s1 = 5 then emit s1 else Some s1)"
    using col frame os by blast
qed


theorem on_symbol_refines_collector_spec_witness:
  "0 \<le> dcnt (locked_example\<lparr>parity := 4\<rparr>) \<and> dcnt (locked_example\<lparr>parity := 4\<rparr>) < 5 \<and>
   parity (locked_example\<lparr>parity := 4\<rparr>) < INT_MAX \<and>
   collection (locked_example\<lparr>parity := 4\<rparr>) = (True, 4, [12, 34]) \<and>
   collector_spec 56 (True, 4, [12, 34]) = (True, 5, [12, 34, 56]) \<and>
   (\<exists>s1. collection s1 = (True, 5, [12, 34, 56]) \<and>
      on_symbol 56 (locked_example\<lparr>parity := 4\<rparr>) = Some s1)"
proof -
  let ?s = "locked_example\<lparr>parity := 4\<rparr>"
  have h: "0 \<le> dcnt ?s" "dcnt ?s < 5" "parity ?s < INT_MAX"
    by (simp_all add: locked_example_def INT_MAX_def)
  have c: "collection ?s = (True, 4, [12, 34])"
    by (simp add: collection_def locked_example_def upt_rec)
  have cs: "collector_spec 56 (True, 4, [12, 34]) = (True, 5, [12, 34, 56])"
    by (simp add: collector_spec_def)
  have st: "started ?s" by (simp add: locked_example_def)
  from on_symbol_refines_collector_spec [OF h, of 56] st
  obtain s1 where s1: "collection s1 = (True, 5, [12, 34, 56])"
    "on_symbol 56 ?s = (if dcnt s1 = 5 then emit s1 else Some s1)"
    unfolding c cs by blast
  from s1(1) have "length (map (data s1) [0..<nat (dcnt s1)]) = 3"
    by (simp add: collection_def)
  then have "dcnt s1 \<noteq> 5" by auto
  with s1 have "collection s1 = (True, 5, [12, 34, 56]) \<and> on_symbol 56 ?s = Some s1" by simp
  then have "\<exists>s1. collection s1 = (True, 5, [12, 34, 56]) \<and> on_symbol 56 ?s = Some s1" ..
  with h c cs show ?thesis by blast
qed

section \<open>Emission\<close>

lemma digit_char_0: "digit_char 0 = CHR ''0''"
  by (simp add: digit_char_def)

lemma fmt_02d_two_digits:
  assumes "0 \<le> x" and "x \<le> 99"
  shows "fmt_02d x = two_digits x"
proof (cases "x < 10")
  case True
  then have "nat x < 10" "x div 10 = 0" "x mod 10 = x" using assms by auto
  then show ?thesis
    using assms by (simp add: fmt_02d_def two_digits_def dec_digits.simps [of "nat x"] digit_char_0)
next
  case False
  then have a: "\<not> nat x < 10" "nat x div 10 < 10" using assms by auto
  have d: "dec_digits (nat x) = [digit_char (nat x div 10), digit_char (nat x mod 10)]"
    using a by (simp add: dec_digits.simps [of "nat x"] dec_digits.simps [of "nat x div 10"])
  have "nat x div 10 = nat (x div 10)" "nat x mod 10 = nat (x mod 10)"
    using assms by (simp_all add: nat_div_distrib nat_mod_distrib)
  then show ?thesis
    using assms by (simp add: fmt_02d_def two_digits_def d)
qed

lemma upt5: "[0..<5] = [0, 1, 2, 3, 4]"
  by (simp add: upt_rec)

lemma render_digits_ok:
  assumes "\<forall>i<5. 0 \<le> d i \<and> d i \<le> 99"
  shows "render_digits d = Some (concat (map two_digits (map d [0..<5])))"
    and "length (concat (map two_digits (map d [0..<5]))) = 10"
proof -
  have "fmt_02d (d i) = two_digits (d i)" if "i < 5" for i
    using assms that by (intro fmt_02d_two_digits) auto
  then have m: "map (\<lambda>i. fmt_02d (d i)) [0..<5] = map two_digits (map d [0..<5])"
    by simp
  show l: "length (concat (map two_digits (map d [0..<5]))) = 10"
    by (simp add: upt5 two_digits_def)
  show "render_digits d = Some (concat (map two_digits (map d [0..<5])))"
    unfolding render_digits_def m Let_def using l by simp
qed

lemma strip_leading_zero_spec: "strip_leading_zero raw = normalize_spec raw"
  by (cases raw) (simp_all add: strip_leading_zero_def normalize_spec_def)

lemma emit_ok:
  assumes "\<forall>i<5. 0 \<le> data s i \<and> data s i \<le> 99"
  shows "emit s =
           Some (s\<lparr>out := out s @
                    [Stdout (''ATIS: '' @ normalize_spec (concat (map two_digits (map (data s) [0..<5])))
                               @ [CHR 0x0A]),
                     Udp_Send (normalize_spec (concat (map two_digits (map (data s) [0..<5])))
                               @ [CHR 0x0A])],
                   state := HUNT, dcnt := 0, started := False\<rparr>)"
proof -
  let ?raw = "concat (map two_digits (map (data s) [0..<5]))"
  have "length (normalize_spec ?raw) \<le> 10"
    using render_digits_ok(2) [OF assms] by (simp add: normalize_spec_def)
  then have "take 31 (normalize_spec ?raw @ [CHR 0x0A]) = normalize_spec ?raw @ [CHR 0x0A]"
    by simp
  then show ?thesis
    by (simp add: emit_def render_digits_ok(1) [OF assms] strip_leading_zero_spec Let_def)
qed


text \<open>
  C5. When a READ of a value \<open>v\<close> in 0..99 brings the sequence of accepted values
  (each in 0..99) to 5 elements, the five values are rendered as two zero-padded decimal
  digits each and concatenated, which gives 10 characters; the leading character is
  dropped iff the string has exactly 10 characters and starts with \<open>0\<close> (the program's
  test and the specification's agree on every string); one line \<open>ATIS: digits\<close> goes
  to stdout and one message \<open>digits\<close> plus newline to \<^verbatim>\<open>udp_send\<close>. Afterwards
  the state is SEARCHING, the started flag and the digit count are reset, nothing else
  has changed, and the alternation counter, though not overwritten, has no influence on
  anything written later.
\<close>

theorem fifth_pair_emits:
  assumes "dcnt s = 4" and "\<forall>i<4. 0 \<le> data s i \<and> data s i \<le> 99" and "0 \<le> v" and "v \<le> 99"
    and "started s \<longrightarrow> even (parity s)" and "parity s < INT_MAX"
  shows "\<exists>s'. on_symbol v s = Some s' \<and>
           (let seq = map (data s) [0..<4] @ [v];
                raw = concat (map two_digits seq);
                digits = normalize_spec raw
            in length raw = 10 \<and>
               out s' = out s @ [Stdout (''ATIS: '' @ digits @ [CHR 0x0A]),
                                 Udp_Send (digits @ [CHR 0x0A])]) \<and>
           state s' = HUNT \<and> dcnt s' = 0 \<and> \<not> started s' \<and>
           s'\<lparr>out := out s, state := state s, dcnt := dcnt s, started := started s,
              parity := parity s, data := data s\<rparr> = s \<and>
           (\<forall>p cls xs. map_option out (run cls xs (s'\<lparr>parity := p\<rparr>))
                         = map_option out (run cls xs s')) \<and>
           (\<forall>str. strip_leading_zero str = normalize_spec str)"
proof -
  define s0 where "s0 = (if \<not> started s then s\<lparr>started := True, parity := 0\<rparr> else s)"
  define s1 where "s1 = s0\<lparr>data := (data s0)(nat (dcnt s0) := v), dcnt := dcnt s0 + 1,
                            parity := parity s0 + 1\<rparr>"
  define digits where
    "digits = normalize_spec (concat (map two_digits (map (data s) [0..<4] @ [v])))"
  define s' where "s' = s1\<lparr>out := out s1 @ [Stdout (''ATIS: '' @ digits @ [CHR 0x0A]),
                                         Udp_Send (digits @ [CHR 0x0A])],
                          state := HUNT, dcnt := 0, started := False\<rparr>"
  have pre: "0 \<le> dcnt s0" "dcnt s0 < 16" "parity s0 < INT_MAX" "even (parity s0)"
    using assms(1,5,6) by (simp_all add: s0_def INT_MAX_def)
  have alt: "alternate v s0 = Some s1"
    using alternate_ok [OF pre(1-3), of v] pre(4) assms(4) by (simp add: s1_def)
  have d5: "dcnt s1 = 5" using assms(1) by (simp add: s1_def s0_def)
  have na: "\<not> (\<not> started s \<and> v > 99)" using assms(4) by simp
  have os: "on_symbol v s = emit s1"
    unfolding on_symbol_def Let_def s0_def [symmetric] using na d5 by (auto simp: alt)
  have dat: "data s1 = (data s)(4 := v)"
    using assms(1) by (simp add: s1_def s0_def)
  have upt: "[0..<5] = [0..<4] @ [4]"
    by (simp add: upt_rec)
  have seq: "map (data s1) [0..<5] = map (data s) [0..<4] @ [v]"
    unfolding dat upt by simp
  have bnd: "\<forall>i<5. 0 \<le> data s1 i \<and> data s1 i \<le> 99"
  proof (intro allI impI)
    fix i :: nat assume "i < 5"
    then have "i < 4 \<or> i = 4" by auto
    then show "0 \<le> data s1 i \<and> data s1 i \<le> 99"
      unfolding dat using assms(2,3,4) by auto
  qed
  have em: "emit s1 = Some s'"
    using emit_ok [OF bnd] unfolding seq s'_def digits_def .
  have len: "length (concat (map two_digits (map (data s) [0..<4] @ [v]))) = 10"
    using render_digits_ok(2) [OF bnd] unfolding seq .
  have o: "out s' = out s @ [Stdout (''ATIS: '' @ digits @ [CHR 0x0A]), Udp_Send (digits @ [CHR 0x0A])]"
    by (simp add: s'_def s1_def s0_def)
  have fr: "s'\<lparr>out := out s, state := state s, dcnt := dcnt s, started := started s,
              parity := parity s, data := data s\<rparr> = s"
    by (simp add: s'_def s1_def s0_def)
  have st: "state s' = HUNT" "dcnt s' = 0" "\<not> started s'"
    by (simp_all add: s'_def)
  have dead: "\<forall>p cls xs. map_option out (run cls xs (s'\<lparr>parity := p\<rparr>))
                         = map_option out (run cls xs s')"
    using hunt_forgets_parity [OF st(1)] by blast
  show ?thesis
    unfolding Let_def
  proof (intro exI [of _ s'] conjI)
    show "on_symbol v s = Some s'" using os em by simp
    show "length (concat (map two_digits (map (data s) [0..<4] @ [v]))) = 10" by (rule len)
    show "out s' = out s @
            [Stdout (''ATIS: '' @ normalize_spec (concat (map two_digits (map (data s) [0..<4] @ [v])))
                       @ [CHR 0x0A]),
             Udp_Send (normalize_spec (concat (map two_digits (map (data s) [0..<4] @ [v])))
                       @ [CHR 0x0A])]"
      using o unfolding digits_def .
  qed (use st fr dead strip_leading_zero_spec in blast)+
qed

theorem fifth_pair_emits_witness:
  "dcnt four_pairs_example = 4 \<and> (0::int) \<le> 89 \<and> (89::int) \<le> 99 \<and>
   map (data four_pairs_example) [0..<4] = [1, 23, 45, 67] \<and>
   even (parity four_pairs_example) \<and> parity four_pairs_example < INT_MAX \<and>
   concat (map two_digits [1, 23, 45, 67, 89]) = ''0123456789'' \<and>
   normalize_spec ''0123456789'' = ''123456789'' \<and>
   (\<exists>s'. on_symbol 89 four_pairs_example = Some s' \<and>
      out s' = [Stdout (''ATIS: 123456789'' @ [CHR 0x0A]), Udp_Send (''123456789'' @ [CHR 0x0A])] \<and>
      state s' = HUNT \<and> dcnt s' = 0 \<and> \<not> started s')"
proof -
  have h: "dcnt four_pairs_example = 4"
    "\<forall>i<4. 0 \<le> data four_pairs_example i \<and> data four_pairs_example i \<le> 99"
    "(0::int) \<le> 89" "(89::int) \<le> 99"
    "started four_pairs_example \<longrightarrow> even (parity four_pairs_example)"
    "parity four_pairs_example < INT_MAX"
    by (auto simp: four_pairs_example_def INT_MAX_def less_Suc_eq numeral_eq_Suc)
  have m: "map (data four_pairs_example) [0..<4] = [1, 23, 45, 67]"
    by (simp add: four_pairs_example_def upt_rec)
  have c: "concat (map two_digits [1, 23, 45, 67, 89]) = ''0123456789''"
    by (simp add: two_digits_def digit_char_def)
  have n: "normalize_spec ''0123456789'' = ''123456789''"
    by (simp add: normalize_spec_def)
  have o: "out four_pairs_example = []" "even (parity four_pairs_example)"
    by (simp_all add: four_pairs_example_def)
  have c': "concat (map two_digits ([1, 23, 45, 67] @ [89])) = ''0123456789''"
    using c by simp
  from fifth_pair_emits [OF h]
  obtain s' where "on_symbol 89 four_pairs_example = Some s'"
    "out s' = [] @ [Stdout (''ATIS: '' @ ''123456789'' @ [CHR 0x0A]), Udp_Send (''123456789'' @ [CHR 0x0A])]"
    "state s' = HUNT" "dcnt s' = 0" "\<not> started s'"
    unfolding Let_def m o c' n by blast
  then have "\<exists>s'. on_symbol 89 four_pairs_example = Some s' \<and>
      out s' = [Stdout (''ATIS: 123456789'' @ [CHR 0x0A]), Udp_Send (''123456789'' @ [CHR 0x0A])] \<and>
      state s' = HUNT \<and> dcnt s' = 0 \<and> \<not> started s'"
    by (intro exI [of _ s']) simp
  with h(1,3,4,6) m c n o(2) show ?thesis by blast
qed

section \<open>Round trip through the codec\<close>

lemma data_value_bits: "data_value (map (bit v) [0..<7] @ r) = take_bit 7 v"
proof -
  have "data_value (map (bit v) [0..<7] @ r)
          = (\<Sum>i = 0..<7. of_bool ((map (bit v) [0..<7] @ r) ! i) * 2 ^ i)"
    by (simp add: data_value_def interv_sum_list_conv_sum_set_nat)
  also have "\<dots> = (\<Sum>i = 0..<7. push_bit i (of_bool (bit v i)))"
    by (rule sum.cong) (simp_all add: nth_append push_bit_eq_mult)
  also have "\<dots> = take_bit 7 v"
    by (rule take_bit_sum [symmetric])
  finally show ?thesis .
qed

lemma check_field_bits:
  "check_field (cs @ [bit z 2, bit z 1, bit z 0]) = take_bit 3 z" if "length cs = 7"
proof -
  have s: "{0..<3::nat} = {0, 1, 2}" by auto
  have "take_bit 3 z = (\<Sum>k = 0..<3. push_bit k (of_bool (bit z k)))"
    by (rule take_bit_sum)
  also have "\<dots> = 4 * of_bool (bit z 2) + 2 * of_bool (bit z 1) + of_bool (bit z 0)"
    unfolding s by (simp add: push_bit_eq_mult)
  finally show ?thesis
    using that by (simp add: check_field_def nth_append)
qed

lemma decode_spec_encode:
  assumes "v < 128"
  shows "decode_spec (map (bit v) [0..<7] @ [bit (7 - popcount v) 2, bit (7 - popcount v) 1,
                                              bit (7 - popcount v) 0]) = Some v"
proof -
  have dv: "data_value (map (bit v) [0..<7] @ [bit (7 - popcount v) 2, bit (7 - popcount v) 1,
                                              bit (7 - popcount v) 0]) = v"
    unfolding data_value_bits using assms by (simp add: take_bit_nat_eq_self)
  have "7 - popcount v < 2 ^ 3" by simp
  then have tb: "take_bit 3 (7 - popcount v) = 7 - popcount v"
    by (rule take_bit_nat_eq_self)
  have cf: "check_field (map (bit v) [0..<7] @ [bit (7 - popcount v) 2, bit (7 - popcount v) 1,
                                              bit (7 - popcount v) 0]) = 7 - popcount v"
    using check_field_bits [of "map (bit v) [0..<7]" "7 - popcount v"] tb by simp
  show ?thesis
    unfolding decode_spec_def Let_def dv cf by simp
qed

lemma decode_encode:
  assumes "v < 128"
  shows "sym_decode (encode v) = int v"
proof -
  define cs where "cs = map (bit v) [0..<7] @ [bit (7 - popcount v) 2, bit (7 - popcount v) 1,
                                              bit (7 - popcount v) 0]"
  have e: "encode v = map of_bool cs"
    by (simp add: encode_def cs_def Let_def)
  have "length cs = 10" by (simp add: cs_def)
  then obtain c0 c1 c2 c3 c4 c5 c6 c7 c8 c9
    where cs: "cs = [c0, c1, c2, c3, c4, c5, c6, c7, c8, c9]"
    by (rule list10)
  have "decode_spec cs = Some v"
    unfolding cs_def using assms by (rule decode_spec_encode)
  moreover have "sym_decode (map of_bool cs) = (case decode_spec cs of Some x \<Rightarrow> int x | None \<Rightarrow> - 1)"
    unfolding cs by (rule sym_decode_bools)
  ultimately show ?thesis
    unfolding e by simp
qed

text \<open>
  C6. For every value \<open>v\<close> in 0..99, \<open>sym_decode\<close> on the 10-bit group
  \<open>encode v\<close> succeeds and returns \<open>v\<close>.
\<close>

theorem decode_encode_round_trip:
  assumes "v \<le> 99"
  shows "sym_decode (encode v) = int v"
proof -
  from assms have "v < 128" by simp
  then show ?thesis by (rule decode_encode)
qed

theorem decode_encode_round_trip_witness:
  "(42::nat) \<le> 99 \<and> encode 42 = [0, 1, 0, 1, 0, 1, 0, 1, 0, 0] \<and> sym_decode (encode 42) = 42"
proof -
  have h: "(42::nat) \<le> 99" by simp
  have e: "encode 42 = [0, 1, 0, 1, 0, 1, 0, 1, 0, 0]" by code_simp
  from decode_encode_round_trip [OF h] h e show ?thesis by simp
qed

section \<open>The invariant of the main loop\<close>

lemma on_symbol_inv:
  assumes "coll_ok d0 s" and "0 \<le> v" and "parity s < INT_MAX"
  shows "\<exists>s'. on_symbol v s = Some s' \<and> coll_ok d0 s' \<and> parity s' \<le> parity s + 1 \<and>
           (state s' = state s \<or> state s' = HUNT) \<and>
           s'\<lparr>out := out s, state := state s, dcnt := dcnt s, started := started s,
              parity := parity s, data := data s\<rparr> = s"
proof (cases "\<not> started s \<and> v > 99")
  case True
  then show ?thesis using assms(1) by (simp add: on_symbol_def)
next
  case False
  define s0 where "s0 = (if \<not> started s then s\<lparr>started := True, parity := 0\<rparr> else s)"
  define s1 where "s1 = (if even (parity s0) \<and> v \<le> 99
                 then s0\<lparr>data := (data s0)(nat (dcnt s0) := v), dcnt := dcnt s0 + 1, parity := parity s0 + 1\<rparr>
                 else s0\<lparr>parity := parity s0 + 1\<rparr>)"
  have c: "0 \<le> dcnt s" "dcnt s \<le> 4" "\<And>i. int i < dcnt s \<Longrightarrow> 0 \<le> data s i \<and> data s i \<le> 99"
    "\<And>i. 5 \<le> i \<Longrightarrow> data s i = d0 i" "0 \<le> parity s"
    using assms(1) by (auto simp: coll_ok_def)
  have pre: "0 \<le> dcnt s0" "dcnt s0 < 16" "parity s0 < INT_MAX"
    using c assms(3) by (simp_all add: s0_def INT_MAX_def)
  have alt: "alternate v s0 = Some s1"
    unfolding s1_def using pre by (rule alternate_ok)
  have os: "on_symbol v s = (if dcnt s1 = 5 then emit s1 else Some s1)"
    unfolding on_symbol_def Let_def s0_def [symmetric] using False by (auto simp: alt)
  have p1: "parity s1 \<le> parity s + 1" "0 \<le> parity s1"
    using c(5) by (auto simp: s1_def s0_def)
  have d1: "0 \<le> dcnt s1" "dcnt s1 \<le> 5"
    using c(1,2) by (auto simp: s1_def s0_def)
  have b1: "0 \<le> data s1 i \<and> data s1 i \<le> 99" if "int i < dcnt s1" for i
  proof (cases "even (parity s0) \<and> v \<le> 99")
    case True
    then have ds: "data s1 = (data s)(nat (dcnt s) := v)" "dcnt s1 = dcnt s + 1"
      by (auto simp: s1_def s0_def)
    show ?thesis
    proof (cases "i = nat (dcnt s)")
      case True
      then show ?thesis using ds \<open>even (parity s0) \<and> v \<le> 99\<close> assms(2) by simp
    next
      case False
      then have "int i < dcnt s" using that ds(2) c(1) by auto
      then show ?thesis using c(3) False ds(1) by simp
    qed
  next
    case False
    then have "data s1 = data s" "dcnt s1 = dcnt s" by (auto simp: s1_def s0_def)
    then show ?thesis using c(3) that by simp
  qed
  have hi1: "data s1 i = d0 i" if "5 \<le> i" for i
  proof -
    have "i \<noteq> nat (dcnt s)" using that c(1,2) by auto
    then show ?thesis using c(4) [OF that] by (auto simp: s1_def s0_def)
  qed
  have st1: "state s1 = state s" by (simp add: s1_def s0_def)
  have fr1: "s1\<lparr>out := out s, state := state s, dcnt := dcnt s, started := started s,
              parity := parity s, data := data s\<rparr> = s"
    by (simp add: s1_def s0_def)
  show ?thesis
  proof (cases "dcnt s1 = 5")
    case False
    then have "coll_ok d0 s1"
      using d1 b1 hi1 p1(2) by (auto simp: coll_ok_def)
    then show ?thesis
      using os False p1(1) st1 fr1 by simp
  next
    case True
    have "\<forall>i<5. 0 \<le> data s1 i \<and> data s1 i \<le> 99"
      using b1 True by simp
    from emit_ok [OF this] obtain e where
      em: "emit s1 = Some (s1\<lparr>out := e, state := HUNT, dcnt := 0, started := False\<rparr>)"
      by blast
    have "coll_ok d0 (s1\<lparr>out := e, state := HUNT, dcnt := 0, started := False\<rparr>)"
      using hi1 p1(2) by (simp add: coll_ok_def)
    moreover have "(s1\<lparr>out := e, state := HUNT, dcnt := 0, started := False\<rparr>)
        \<lparr>out := out s, state := state s, dcnt := dcnt s, started := started s,
              parity := parity s, data := data s\<rparr> = s"
      using fr1 by simp
    ultimately show ?thesis
      using os True em p1(1) by simp
  qed
qed


lemma hunt_spec_le10:
  assumes "length q \<le> 10" and "snd (hunt_spec q)"
  shows "fst (hunt_spec q) = []"
proof (cases "10 \<le> length q \<and> sym_decode (take 10 q) = SYM_DX")
  case True
  then show ?thesis using assms(1) by (subst hunt_spec.simps) simp
next
  case False
  have "\<not> 10 \<le> length (tl q)" using assms(1) by simp
  then have "hunt_spec (tl q) = (tl q, False)" by (subst hunt_spec.simps) simp
  then have "\<not> snd (hunt_spec q)"
    using False by (subst hunt_spec.simps) auto
  with assms(2) show ?thesis by simp
qed

lemma process_bit_inv:
  assumes "bit_inv d0 n s" and "int n < INT_MAX"
  shows "\<exists>s'. process_bit b s = Some s' \<and> bit_inv d0 (Suc n) s' \<and> sb s' = sb s \<and> sn s' = sn s \<and>
              ring s' = (ring s)(nat (rwr s mod RING) := word_of_int b)"
proof -
  have ok: "ring_ok s" and w: "rwr s = int n" and co: "coll_ok d0 s" and pw: "parity s \<le> rwr s"
    and hu: "state s = HUNT \<Longrightarrow> rcnt s \<le> 9"
    and lo: "state s = LOCKED \<Longrightarrow> rcnt s = sym_bit s \<and> sym_bit s \<le> 9"
    using assms(1) by (auto simp: bit_inv_def)
  have wl: "rwr s < INT_MAX" using w assms(2) by simp
  show ?thesis
  proof (cases "state s")
    case HUNT
    define s1 where "s1 = s\<lparr>ring := (ring s)(nat (rwr s mod RING) := word_of_int b),
                            rwr := rwr s + 1, rcnt := rcnt s + 1\<rparr>"
    have lt: "rcnt s < RING" using hu [OF HUNT] by (simp add: RING_def)
    have push: "rpush b s = Some s1"
      unfolding s1_def using ok lt wl by (rule rpush_ok)
    have ok1: "ring_ok s1"
      unfolding s1_def using ok lt wl by (rule ring_ok_push)
    have pb: "process_bit b s = hunt_loop s1"
      using HUNT by (simp add: process_bit_def push s1_def)
    have c1: "rcnt s1 \<le> 10" "0 \<le> rcnt s1"
      using hu [OF HUNT] ok by (simp_all add: s1_def ring_ok_def)
    then have l1: "length (queue s1) \<le> 10" by (simp add: length_queue)
    from hunt_loop_refines [OF ok1]
    obtain k where k: "int k \<le> rcnt s1" "fst (hunt_spec (queue s1)) = drop k (queue s1)"
      "hunt_loop s1 =
         Some (if snd (hunt_spec (queue s1))
               then s1\<lparr>rcnt := rcnt s1 - int k, rrd := rrd s1 + int k, state := LOCKED,
                      sym_bit := 0, dcnt := 0, started := False, parity := 0\<rparr>
               else s1\<lparr>rcnt := rcnt s1 - int k, rrd := rrd s1 + int k\<rparr>)"
      by blast
    have lenk: "int (length (fst (hunt_spec (queue s1)))) = rcnt s1 - int k"
      unfolding k(2) using k(1) c1(2) by (simp add: length_queue)
    have okk: "ring_ok (s1\<lparr>rcnt := rcnt s1 - int k, rrd := rrd s1 + int k\<rparr>)"
      using ok1 k(1) by (simp add: ring_ok_def)
    have w1: "rwr s1 = int (Suc n)" using w by (simp add: s1_def)
    have co1: "coll_ok d0 s1" using co by (simp add: coll_ok_def s1_def)
    have pw1: "parity s1 \<le> rwr s1" using pw by (simp add: s1_def)
    have fr1: "sb s1 = sb s" "sn s1 = sn s" "state s1 = HUNT"
      "ring s1 = (ring s)(nat (rwr s mod RING) := word_of_int b)"
      using HUNT by (simp_all add: s1_def)
    show ?thesis
    proof (cases "snd (hunt_spec (queue s1))")
      case True
      then have "rcnt s1 - int k = 0"
        using hunt_spec_le10 [OF l1] lenk by simp
      moreover have "coll_ok d0 (s1\<lparr>rcnt := rcnt s1 - int k, rrd := rrd s1 + int k, state := LOCKED,
                      sym_bit := 0, dcnt := 0, started := False, parity := 0\<rparr>)"
        using co1 by (simp add: coll_ok_def)
      ultimately show ?thesis
        unfolding pb k(3) using True okk w1 fr1
        by (simp add: bit_inv_def ring_ok_def)
    next
      case False
      then have "rcnt s1 - int k \<le> 9"
        using hunt_spec_short [of "queue s1"] lenk by simp
      moreover have "coll_ok d0 (s1\<lparr>rcnt := rcnt s1 - int k, rrd := rrd s1 + int k\<rparr>)"
        using co1 by (simp add: coll_ok_def)
      ultimately show ?thesis
        unfolding pb k(3) using False okk w1 fr1 pw1
        by (simp add: bit_inv_def ring_ok_def)
    qed
  next
    case LOCKED
    note l = lo [OF LOCKED]
    have step: "process_bit b s =
           (if sym_bit s < 9
            then Some (s\<lparr>ring := (ring s)(nat (rwr s mod RING) := word_of_int b),
                        rwr := rwr s + 1, rcnt := rcnt s + 1, sym_bit := sym_bit s + 1\<rparr>)
            else let s0 = s\<lparr>ring := (ring s)(nat (rwr s mod RING) := word_of_int b),
                            rwr := rwr s + 1, rcnt := 0, rrd := rrd s + 10, sym_bit := 0\<rparr>;
                     v = sym_decode (queue s @ [word_of_int b])
                 in if v < 0 then Some (s0\<lparr>state := HUNT, dcnt := 0, started := False\<rparr>)
                    else on_symbol v s0)"
      using LOCKED ok l wl by (intro locked_bit_step) simp_all
    show ?thesis
    proof (cases "sym_bit s < 9")
      case True
      have "coll_ok d0 (s\<lparr>ring := (ring s)(nat (rwr s mod RING) := word_of_int b),
                        rwr := rwr s + 1, rcnt := rcnt s + 1, sym_bit := sym_bit s + 1\<rparr>)"
        using co by (simp add: coll_ok_def)
      then show ?thesis
        unfolding step using True ok w l pw LOCKED wl
        by (simp add: bit_inv_def ring_ok_def RING_def)
    next
      case False
      then have nine: "sym_bit s = 9" "rcnt s = 9" using l by simp_all
      define s0 where "s0 = s\<lparr>ring := (ring s)(nat (rwr s mod RING) := word_of_int b),
                            rwr := rwr s + 1, rcnt := 0, rrd := rrd s + 10, sym_bit := 0\<rparr>"
      define v where "v = sym_decode (queue s @ [word_of_int b])"
      have st: "process_bit b s =
                  (if v < 0 then Some (s0\<lparr>state := HUNT, dcnt := 0, started := False\<rparr>)
                   else on_symbol v s0)"
        unfolding step using False by (simp add: s0_def v_def Let_def)
      have ok0: "ring_ok s0"
        using ok nine wl by (simp add: s0_def ring_ok_def RING_def)
      have co0: "coll_ok d0 s0" using co by (simp add: coll_ok_def s0_def)
      have f0: "rwr s0 = int (Suc n)" "rcnt s0 = 0" "sym_bit s0 = 0" "sb s0 = sb s" "sn s0 = sn s"
        "parity s0 = parity s" "ring s0 = (ring s)(nat (rwr s mod RING) := word_of_int b)"
        using w by (simp_all add: s0_def)
      show ?thesis
      proof (cases "v < 0")
        case True
        have "coll_ok d0 (s0\<lparr>state := HUNT, dcnt := 0, started := False\<rparr>)"
          using co0 by (simp add: coll_ok_def)
        then show ?thesis
          unfolding st using True ok0 f0 pw w
          by (simp add: bit_inv_def ring_ok_def)
      next
        case False
        then have v0: "0 \<le> v" by simp
        have p0: "parity s0 < INT_MAX" using pw wl f0(6) by simp
        from on_symbol_inv [OF co0 v0 p0]
        obtain s' where s': "on_symbol v s0 = Some s'" "coll_ok d0 s'" "parity s' \<le> parity s0 + 1"
          "s'\<lparr>out := out s0, state := state s0, dcnt := dcnt s0, started := started s0,
              parity := parity s0, data := data s0\<rparr> = s0"
          by blast
        have g: "ring s' = ring s0" "rwr s' = rwr s0" "rrd s' = rrd s0" "rcnt s' = rcnt s0"
          "sym_bit s' = sym_bit s0" "sb s' = sb s0" "sn s' = sn s0"
          using arg_cong [OF s'(4), of ring] arg_cong [OF s'(4), of rwr] arg_cong [OF s'(4), of rrd]
            arg_cong [OF s'(4), of rcnt] arg_cong [OF s'(4), of sym_bit] arg_cong [OF s'(4), of sb]
            arg_cong [OF s'(4), of sn]
          by simp_all
        have ok': "ring_ok s'" using ok0 g by (simp add: ring_ok_def)
        show ?thesis
          unfolding st using False s'(1-3) ok' g f0 pw w
          by (simp add: bit_inv_def)
      qed
    qed
  qed
qed


lemma bit_inv_sample [simp]: "bit_inv d0 n (s\<lparr>sb := f, sn := m\<rparr>) = bit_inv d0 n s"
  by (simp add: bit_inv_def ring_ok_def coll_ok_def)

lemma SPB_20: "SPB = 20"
  by (simp add: SPB_def)

lemma feed_sample_inv:
  assumes "inv d0 t s" and "int (Suc t div 20) \<le> INT_MAX"
  shows "\<exists>s'. feed_sample cls x s = Some s' \<and> inv d0 (Suc t) s'"
proof -
  have bi: "bit_inv d0 (t div 20) s" and sn: "sn s = int (t mod 20)"
    and rb: "\<forall>k. ring s k = 0 \<or> ring s k = 1"
    using assms(1) by (simp_all add: inv_def)
  have rng: "0 \<le> sn s \<and> sn s < SPB" using sn by (simp add: SPB_20)
  show ?thesis
  proof (cases "Suc (t mod 20) < 20")
    case True
    then have "Suc t div 20 = t div 20" "Suc t mod 20 = Suc (t mod 20)"
      by (simp_all add: div_Suc mod_Suc)
    then show ?thesis
      using True bi sn rng rb by (simp add: feed_sample_def inv_def SPB_20)
  next
    case False
    then have e: "Suc t div 20 = Suc (t div 20)" "Suc t mod 20 = 0"
      by (simp_all add: div_Suc mod_Suc)
    define s2 where "s2 = s\<lparr>sb := (sb s)(nat (sn s) := x), sn := 0\<rparr>"
    define b :: int where "b = (if cls (window s2) then 1 else 0)"
    have fs: "feed_sample cls x s = process_bit b s2"
      using rng False sn by (simp add: feed_sample_def s2_def b_def Let_def SPB_20)
    have "bit_inv d0 (t div 20) s2" using bi by (simp add: s2_def)
    moreover have "int (t div 20) < INT_MAX" using assms(2) e by simp
    ultimately obtain s' where s': "process_bit b s2 = Some s'" "bit_inv d0 (Suc (t div 20)) s'"
      "sn s' = sn s2" "ring s' = (ring s2)(nat (rwr s2 mod RING) := word_of_int b)"
      using process_bit_inv by blast
    have "(word_of_int b :: uint8) = 0 \<or> (word_of_int b :: uint8) = 1"
      by (simp add: b_def)
    then have "\<forall>k. ring s' k = 0 \<or> ring s' k = 1"
      unfolding s'(4) using rb by (simp add: s2_def)
    then show ?thesis
      unfolding fs using s'(1-3) by (simp add: inv_def e s2_def)
  qed
qed

lemma feed_sample_bound:
  assumes "inv d0 t s" and "feed_sample cls x s = Some s'"
  shows "int (Suc t div 20) \<le> INT_MAX"
proof -
  have bi: "bit_inv d0 (t div 20) s" and sn: "sn s = int (t mod 20)"
    using assms(1) by (simp_all add: inv_def)
  have w: "rwr s = int (t div 20)" "rwr s \<le> INT_MAX"
    using bi by (simp_all add: bit_inv_def ring_ok_def)
  show ?thesis
  proof (cases "Suc (t mod 20) < 20")
    case True
    then have "Suc t div 20 = t div 20" by (simp add: div_Suc mod_Suc)
    then show ?thesis using w by simp
  next
    case False
    then have e: "Suc t div 20 = Suc (t div 20)" by (simp add: div_Suc mod_Suc)
    define s2 where "s2 = s\<lparr>sb := (sb s)(nat (sn s) := x), sn := 0\<rparr>"
    define b :: int where "b = (if cls (window s2) then 1 else 0)"
    have "feed_sample cls x s = process_bit b s2"
      using False sn by (simp add: feed_sample_def s2_def b_def Let_def SPB_20)
    with assms(2) have "rpush b s2 \<noteq> None"
      by (auto simp: process_bit_def split: bind_splits)
    then have "rwr s2 < INT_MAX"
      by (auto simp: rpush_def int_incr_def split: bind_splits if_splits)
    then show ?thesis using w e by (simp add: s2_def)
  qed
qed

lemma run_inv:
  assumes "inv d0 t s" and "run cls xs s = Some s'"
  shows "inv d0 (t + length xs) s'"
  using assms
proof (induction xs arbitrary: s t)
  case Nil
  then show ?case by simp
next
  case (Cons x xs)
  from Cons.prems(2) obtain s1 where s1: "feed_sample cls x s = Some s1" "run cls xs s1 = Some s'"
    by (auto split: bind_splits)
  have "int (Suc t div 20) \<le> INT_MAX"
    using Cons.prems(1) s1(1) by (rule feed_sample_bound)
  with Cons.prems(1) have "inv d0 (Suc t) s1"
    using feed_sample_inv [of d0 t s cls x] s1(1) by auto
  from Cons.IH [OF this s1(2)] show ?case by simp
qed

lemma run_defined:
  assumes "inv d0 t s" and "int ((t + length xs) div 20) \<le> INT_MAX"
  shows "\<exists>s'. run cls xs s = Some s'"
  using assms
proof (induction xs arbitrary: s t)
  case Nil
  then show ?case by simp
next
  case (Cons x xs)
  have "Suc t div 20 \<le> (t + length (x # xs)) div 20"
    by (intro div_le_mono) simp
  then have "int (Suc t div 20) \<le> INT_MAX"
    using Cons.prems(2) by linarith
  with Cons.prems(1) obtain s1 where s1: "feed_sample cls x s = Some s1" "inv d0 (Suc t) s1"
    using feed_sample_inv by blast
  have "int ((Suc t + length xs) div 20) \<le> INT_MAX"
    using Cons.prems(2) by simp
  from Cons.IH [OF s1(2) this] show ?case
    by (simp add: s1(1))
qed

lemma init_inv: "inv d0 0 (init sb0 d0)"
  by (simp add: inv_def bit_inv_def ring_ok_def coll_ok_def init_def RING_def INT_MAX_def)

lemma queue_bits: "\<forall>k. ring s k = 0 \<or> ring s k = 1 \<Longrightarrow> set (queue s) \<subseteq> {0, 1}"
  by (auto simp: queue_def)

lemma run_append: "run cls (xs @ ys) s = run cls xs s \<bind> run cls ys"
proof (induction xs arbitrary: s)
  case Nil
  show ?case by simp
next
  case (Cons x xs)
  show ?case by (cases "feed_sample cls x s") (simp_all add: Cons.IH)
qed

lemma run_partial_window:
  assumes "0 \<le> sn s" and "sn s + int (length ys) < 20"
  shows "\<exists>s'. run cls ys s = Some s' \<and> s'\<lparr>sb := sb s, sn := sn s\<rparr> = s \<and>
              sn s' = sn s + int (length ys)"
  using assms
proof (induction ys arbitrary: s)
  case Nil
  then show ?case by simp
next
  case (Cons y ys)
  define s1 where "s1 = s\<lparr>sb := (sb s)(nat (sn s) := y), sn := sn s + 1\<rparr>"
  have f: "feed_sample cls y s = Some s1"
    using Cons.prems by (simp add: feed_sample_def s1_def SPB_20)
  have "0 \<le> sn s1" "sn s1 + int (length ys) < 20"
    using Cons.prems by (simp_all add: s1_def)
  from Cons.IH [OF this] obtain s' where s': "run cls ys s1 = Some s'"
    "s'\<lparr>sb := sb s1, sn := sn s1\<rparr> = s1" "sn s' = sn s1 + int (length ys)"
    by blast
  have "s'\<lparr>sb := sb s, sn := sn s\<rparr> = (s'\<lparr>sb := sb s1, sn := sn s1\<rparr>)\<lparr>sb := sb s, sn := sn s\<rparr>"
    by simp
  also have "\<dots> = s" unfolding s'(2) by (simp add: s1_def)
  finally show ?case
    using s'(1,3) by (simp add: f s1_def)
qed

text \<open>
  What the step theorems above assume of a state holds in every state the program
  reaches at the top of its loop; and the ring window holds bits, so that
  \<open>sym_decode\<close> only ever sees bytes 0 and 1.
\<close>

lemma reachable_preconditions:
  assumes "run cls xs (init sb0 d0) = Some s"
  shows "ring_ok s" and "rcnt s < RING" and "state s = LOCKED \<Longrightarrow> rcnt s = sym_bit s"
    and "0 \<le> sym_bit s \<or> state s = HUNT" and "0 \<le> dcnt s" and "dcnt s < 5"
    and "\<forall>i. int i < dcnt s \<longrightarrow> 0 \<le> data s i \<and> data s i \<le> 99"
    and "0 \<le> parity s" and "parity s \<le> rwr s" and "rwr s = int (length xs div 20)"
    and "set (queue s) \<subseteq> {0, 1}"
proof -
  from run_inv [OF init_inv assms] have i: "bit_inv d0 (length xs div 20) s"
    and rb: "\<forall>k. ring s k = 0 \<or> ring s k = 1"
    by (simp_all add: inv_def)
  from rb show "set (queue s) \<subseteq> {0, 1}" by (rule queue_bits)
  from i show "ring_ok s" "state s = LOCKED \<Longrightarrow> rcnt s = sym_bit s" "parity s \<le> rwr s"
    "rwr s = int (length xs div 20)"
    by (simp_all add: bit_inv_def)
  from i show "rcnt s < RING" "0 \<le> sym_bit s \<or> state s = HUNT"
    by (cases "state s"; simp add: bit_inv_def ring_ok_def RING_def)+
  from i have "coll_ok d0 s" by (simp add: bit_inv_def)
  then show "0 \<le> dcnt s" "dcnt s < 5"
    "\<forall>i. int i < dcnt s \<longrightarrow> 0 \<le> data s i \<and> data s i \<le> 99" "0 \<le> parity s"
    by (simp_all add: coll_ok_def)
qed

section \<open>Bounds on the ring and on the collected digits\<close>

text \<open>
  C9. Whatever samples the program has consumed, the ring holds fewer than 10 bits at
  the top of the loop, so at most 10 right after the next push; the slot that push writes
  differs from the slot of every bit not yet consumed, and the ring window after the push
  is the old one with the new bit appended. The counters stay in the range of
  \<^verbatim>\<open>int\<close> (the run is defined) as long as at most \<open>INT_MAX\<close> bits were classified.
\<close>

theorem ring_occupancy_bounded:
  "(int (length xs div 20) \<le> INT_MAX \<longrightarrow> run cls xs (init sb0 d0) \<noteq> None) \<and>
   (\<forall>s. run cls xs (init sb0 d0) = Some s \<longrightarrow>
      0 \<le> rcnt s \<and> rcnt s < 10 \<and>
      (\<forall>i. 0 \<le> i \<and> i < rcnt s \<longrightarrow>
         (\<exists>k j. ring_slot (rwr s) = Some k \<and> ring_slot (rrd s + i) = Some j \<and> k \<noteq> j)) \<and>
      (\<forall>b s1. rpush b s = Some s1 \<longrightarrow>
         rcnt s1 \<le> 10 \<and> queue s1 = queue s @ [word_of_int b]))"
proof (intro conjI allI impI)
  assume "int (length xs div 20) \<le> INT_MAX"
  then show "run cls xs (init sb0 d0) \<noteq> None"
    using run_defined [OF init_inv, of xs cls sb0 d0] by auto
next
  fix s assume r: "run cls xs (init sb0 d0) = Some s"
  from run_inv [OF init_inv r] have i: "bit_inv d0 (length xs div 20) s"
    by (simp add: inv_def)
  then have ok: "ring_ok s" by (simp add: bit_inv_def)
  have c: "0 \<le> rcnt s" "rcnt s < 10"
    using i by (cases "state s"; simp add: bit_inv_def ring_ok_def)+
  show "0 \<le> rcnt s" "rcnt s < 10" by (rule c)+
  {
    fix i assume a: "0 \<le> i \<and> i < rcnt s"
    have w: "rwr s = rrd s + rcnt s" "0 \<le> rrd s" using ok by (simp_all add: ring_ok_def)
    have "(rrd s + i) mod RING \<noteq> (rrd s + rcnt s) mod RING"
      using a c by (intro slot_distinct) (simp_all add: RING_def)
    moreover have "0 \<le> (rrd s + i) mod RING" "0 \<le> (rrd s + rcnt s) mod RING"
      by (simp_all add: RING_def)
    ultimately have "nat ((rrd s + rcnt s) mod RING) \<noteq> nat ((rrd s + i) mod RING)"
      by (simp add: nat_eq_iff)
    then show "\<exists>k j. ring_slot (rwr s) = Some k \<and> ring_slot (rrd s + i) = Some j \<and> k \<noteq> j"
      using w a c by (simp add: ring_slot_nonneg)
  }
  {
    fix b s1 assume p: "rpush b s = Some s1"
    have lt: "rcnt s < RING" using c by (simp add: RING_def)
    from p have wl: "rwr s < INT_MAX"
      by (auto simp: rpush_def int_incr_def split: bind_splits if_splits)
    have s1: "s1 = s\<lparr>ring := (ring s)(nat (rwr s mod RING) := word_of_int b),
                        rwr := rwr s + 1, rcnt := rcnt s + 1\<rparr>"
      using rpush_ok [OF ok lt wl, of b] p by simp
    show "rcnt s1 \<le> 10" using c by (simp add: s1)
    show "queue s1 = queue s @ [word_of_int b]"
      unfolding s1 using ok lt by (rule queue_push)
  }
qed

theorem ring_occupancy_bounded_witness:
  "int (length (replicate 40 (0 :: int16)) div 20) \<le> INT_MAX \<and>
   (\<exists>s. run (\<lambda>w. True) (replicate 40 0) (init (\<lambda>i. 0) (\<lambda>i. 0)) = Some s \<and>
        0 \<le> rcnt s \<and> rcnt s < 10)"
proof -
  have h: "int (length (replicate 40 (0 :: int16)) div 20) \<le> INT_MAX"
    by (simp add: INT_MAX_def)
  from ring_occupancy_bounded [of "replicate 40 0" "\<lambda>w. True" "\<lambda>i. 0" "\<lambda>i. 0"] h
  show ?thesis by auto
qed

text \<open>
  C10. Whatever samples the program has consumed, \<^verbatim>\<open>dcnt\<close> is in 0..4 at the top
  of the loop, where the guard \<^verbatim>\<open>dcnt < 16\<close> of the append and the bound
  \<^verbatim>\<open>dcnt < 5\<close> agree; an append from there leaves it in 0..5 (5 being the value
  at which \<open>on_symbol\<close> emits and resets), and the elements 5 and above of \<^verbatim>\<open>data\<close>
  still hold what they held at the start: they are never written.
\<close>

theorem dcnt_bounded:
  "(int (length xs div 20) \<le> INT_MAX \<longrightarrow> run cls xs (init sb0 d0) \<noteq> None) \<and>
   (\<forall>s. run cls xs (init sb0 d0) = Some s \<longrightarrow>
      0 \<le> dcnt s \<and> dcnt s < 5 \<and> (dcnt s < 16 \<longleftrightarrow> dcnt s < 5) \<and>
      (\<forall>i. 5 \<le> i \<longrightarrow> data s i = d0 i) \<and>
      (\<forall>v s0 s1. dcnt s0 = dcnt s \<and> data s0 = data s \<and> alternate v s0 = Some s1 \<longrightarrow>
         0 \<le> dcnt s1 \<and> dcnt s1 \<le> 5 \<and> (\<forall>i. 5 \<le> i \<longrightarrow> data s1 i = d0 i)))"
proof (intro conjI allI impI)
  assume "int (length xs div 20) \<le> INT_MAX"
  then show "run cls xs (init sb0 d0) \<noteq> None"
    using run_defined [OF init_inv, of xs cls sb0 d0] by auto
next
  fix s assume r: "run cls xs (init sb0 d0) = Some s"
  from run_inv [OF init_inv r] have "coll_ok d0 s"
    by (simp add: inv_def bit_inv_def)
  then have c: "0 \<le> dcnt s" "dcnt s \<le> 4" "\<And>i. 5 \<le> i \<Longrightarrow> data s i = d0 i"
    by (auto simp: coll_ok_def)
  show "0 \<le> dcnt s" "dcnt s < 5" "dcnt s < 16 \<longleftrightarrow> dcnt s < 5"
    using c(1,2) by simp_all
  show "data s i = d0 i" if "5 \<le> i" for i
    using c(3) that .
  {
    fix v s0 s1 assume a: "dcnt s0 = dcnt s \<and> data s0 = data s \<and> alternate v s0 = Some s1"
    then have "(dcnt s1 = dcnt s \<and> data s1 = data s) \<or>
               (dcnt s1 = dcnt s + 1 \<and> data s1 = (data s)(nat (dcnt s) := v))"
      by (auto simp: alternate_def int_incr_def split: bind_splits if_splits)
    then have d: "0 \<le> dcnt s1 \<and> dcnt s1 \<le> 5 \<and> (\<forall>i\<ge>5. data s1 i = d0 i)"
      using c by auto
    show "0 \<le> dcnt s1" "dcnt s1 \<le> 5" using d by simp_all
    show "data s1 i = d0 i" if "5 \<le> i" for i using d that by simp
  }
qed

theorem dcnt_bounded_witness:
  "int (length (replicate 40 (0 :: int16)) div 20) \<le> INT_MAX \<and>
   (\<exists>s. run (\<lambda>w. True) (replicate 40 0) (init (\<lambda>i. 0) (\<lambda>i. 7)) = Some s \<and>
        0 \<le> dcnt s \<and> dcnt s < 5 \<and> data s 5 = 7)"
proof -
  have h: "int (length (replicate 40 (0 :: int16)) div 20) \<le> INT_MAX"
    by (simp add: INT_MAX_def)
  from dcnt_bounded [of "replicate 40 0" "\<lambda>w. True" "\<lambda>i. 0" "\<lambda>i. 7"] h
  obtain s where "run (\<lambda>w. True) (replicate 40 0) (init (\<lambda>i. 0) (\<lambda>i. 7)) = Some s"
    "0 \<le> dcnt s" "dcnt s < 5" "\<forall>i. 5 \<le> i \<longrightarrow> data s i = 7"
    by auto
  then have "run (\<lambda>w. True) (replicate 40 0) (init (\<lambda>i. 0) (\<lambda>i. 7)) = Some s \<and>
        0 \<le> dcnt s \<and> dcnt s < 5 \<and> data s 5 = 7"
    by simp
  with h show ?thesis by blast
qed

section \<open>A truncated trailing window\<close>

text \<open>
  C8. When the input is a number of full windows followed by fewer than 20 samples,
  the program exits with the same status and has written the same as on the full
  windows alone; the trailing samples only sit in the window buffer, no bit is pushed
  and no decode runs for them. With the two arguments given and the run on the full
  windows defined, the exit status is 0.
\<close>

theorem trailing_window_dropped:
  assumes "length xs mod 20 = 0" and "length rest < 20"
  shows "atis_main cls argv (xs @ rest) sb0 d0 = atis_main cls argv xs sb0 d0 \<and>
         (\<forall>s. run cls xs (init sb0 d0) = Some s \<longrightarrow>
            (\<exists>s'. run cls (xs @ rest) (init sb0 d0) = Some s' \<and>
                  s'\<lparr>sb := sb s, sn := sn s\<rparr> = s \<and> sn s' = int (length rest))) \<and>
         (3 \<le> length argv \<and> run cls xs (init sb0 d0) \<noteq> None \<longrightarrow>
            (\<exists>evs. atis_main cls argv (xs @ rest) sb0 d0 = Some (0, evs)))"
proof -
  have part: "\<exists>s'. run cls (xs @ rest) (init sb0 d0) = Some s' \<and>
                  s'\<lparr>sb := sb s, sn := sn s\<rparr> = s \<and> sn s' = int (length rest)"
    if r: "run cls xs (init sb0 d0) = Some s" for s
  proof -
    from run_inv [OF init_inv r] have "sn s = 0"
      using assms(1) by (simp add: inv_def)
    then have "0 \<le> sn s" "sn s + int (length rest) < 20"
      using assms(2) by simp_all
    from run_partial_window [OF this, of cls] \<open>sn s = 0\<close>
    show ?thesis by (simp add: run_append r)
  qed
  have main: "atis_main cls argv (xs @ rest) sb0 d0 = atis_main cls argv xs sb0 d0"
  proof (cases "run cls xs (init sb0 d0)")
    case None
    then show ?thesis by (simp add: atis_main_def run_append)
  next
    case (Some s)
    from part [OF Some] obtain s' where s': "run cls (xs @ rest) (init sb0 d0) = Some s'"
      "s'\<lparr>sb := sb s, sn := sn s\<rparr> = s"
      by blast
    have "out s' = out s" using arg_cong [OF s'(2), of out] by simp
    then show ?thesis by (simp add: atis_main_def Some s'(1))
  qed
  have ex: "\<exists>evs. atis_main cls argv (xs @ rest) sb0 d0 = Some (0, evs)"
    if "3 \<le> length argv \<and> run cls xs (init sb0 d0) \<noteq> None"
    using that unfolding main by (auto simp: atis_main_def)
  show ?thesis
    using part main ex by blast
qed

theorem trailing_window_dropped_witness:
  "length (replicate 20 (0 :: int16)) mod 20 = 0 \<and> length [5, 6, 7 :: int16] < 20 \<and>
   atis_main (\<lambda>w. True) [''atis_decoder'', ''127.0.0.1'', ''5005''] (replicate 20 0 @ [5, 6, 7])
       (\<lambda>i. 0) (\<lambda>i. 0) = Some (0, [])"
proof -
  have h: "length (replicate 20 (0 :: int16)) mod 20 = 0" "length [5, 6, 7 :: int16] < 20"
    by simp_all
  have "atis_main (\<lambda>w. True) [''atis_decoder'', ''127.0.0.1'', ''5005''] (replicate 20 0)
          (\<lambda>i. 0) (\<lambda>i. 0) = Some (0, [])"
    by code_simp
  with trailing_window_dropped [OF h, of "\<lambda>w. True" "[''atis_decoder'', ''127.0.0.1'', ''5005'']" "\<lambda>i. 0" "\<lambda>i. 0"] h
  show ?thesis by simp
qed

section \<open>The sample loop is the bit loop on the classified windows\<close>

text \<open>
  Nothing after the classification reads the window buffer, so on an input made of full
  windows the program does to its state what \<open>process_bits\<close> does on the bits these
  windows are classified as; the two states differ in the window buffer only.
\<close>

lemma rpush_window:
  "rpush b (s\<lparr>sb := f, sn := m\<rparr>) = map_option (\<lambda>u. u\<lparr>sb := f, sn := m\<rparr>) (rpush b s)"
  by (simp add: rpush_def split: bind_split)

lemma rpop_window:
  "rpop (s\<lparr>sb := f, sn := m\<rparr>) = map_option (\<lambda>(x, u). (x, u\<lparr>sb := f, sn := m\<rparr>)) (rpop s)"
  by (simp add: rpop_def split: bind_split)

lemma rpop_n_window:
  "rpop_n n (s\<lparr>sb := f, sn := m\<rparr>) = map_option (\<lambda>(x, u). (x, u\<lparr>sb := f, sn := m\<rparr>)) (rpop_n n s)"
proof (induction n arbitrary: s)
  case 0
  show ?case by simp
next
  case (Suc n)
  show ?case
    by (cases "rpop s") (auto simp: rpop_window Suc.IH split: bind_split)
qed

lemma peek_raw_window: "peek_raw (s\<lparr>sb := f, sn := m\<rparr>) = peek_raw s"
  by (simp add: peek_raw_def rpeek_def)

lemma hunt_loop_window:
  "hunt_loop (s\<lparr>sb := f, sn := m\<rparr>) = map_option (\<lambda>u. u\<lparr>sb := f, sn := m\<rparr>) (hunt_loop s)"
proof (induction s rule: hunt_loop.induct)
  case (1 s)
  show ?case
  proof (cases "10 \<le> rcnt s")
    case False
    then show ?thesis
      by (simp add: hunt_loop.simps [of s] hunt_loop.simps [of "s\<lparr>sb := f, sn := m\<rparr>"])
  next
    case True
    show ?thesis
    proof (cases "peek_raw s")
      case None
      then show ?thesis
        using True
        by (simp add: hunt_loop.simps [of s] hunt_loop.simps [of "s\<lparr>sb := f, sn := m\<rparr>"] peek_raw_window)
    next
      case (Some raw)
      show ?thesis
      proof (cases "sym_decode raw = SYM_DX")
        case dx: True
        show ?thesis
          using True Some dx
          by (cases "rpop_n 10 s")
             (auto simp: hunt_loop.simps [of s] hunt_loop.simps [of "s\<lparr>sb := f, sn := m\<rparr>"]
                peek_raw_window rpop_n_window)
      next
        case nodx: False
        show ?thesis
        proof (cases "rpop s")
          case None
          then show ?thesis
            using True Some nodx
            by (simp add: hunt_loop.simps [of s] hunt_loop.simps [of "s\<lparr>sb := f, sn := m\<rparr>"]
                peek_raw_window rpop_window)
        next
          case (Some xs1)
          obtain x s1 where xs1: "xs1 = (x, s1)" by (cases xs1)
          have "hunt_loop (s1\<lparr>sb := f, sn := m\<rparr>) = map_option (\<lambda>u. u\<lparr>sb := f, sn := m\<rparr>) (hunt_loop s1)"
            using "1.IH" [OF True \<open>peek_raw s = Some raw\<close> nodx Some [unfolded xs1] refl] .
          then show ?thesis
            using True \<open>peek_raw s = Some raw\<close> nodx Some xs1
            by (simp add: hunt_loop.simps [of s] hunt_loop.simps [of "s\<lparr>sb := f, sn := m\<rparr>"]
                peek_raw_window rpop_window)
        qed
      qed
    qed
  qed
qed

lemma emit_window:
  "emit (s\<lparr>sb := f, sn := m\<rparr>) = map_option (\<lambda>u. u\<lparr>sb := f, sn := m\<rparr>) (emit s)"
  by (simp add: emit_def Let_def split: bind_split)

lemma alternate_window:
  "alternate v (s\<lparr>sb := f, sn := m\<rparr>) = map_option (\<lambda>u. u\<lparr>sb := f, sn := m\<rparr>) (alternate v s)"
  by (simp add: alternate_def split: bind_split)

lemma on_symbol_window:
  "on_symbol v (s\<lparr>sb := f, sn := m\<rparr>) = map_option (\<lambda>u. u\<lparr>sb := f, sn := m\<rparr>) (on_symbol v s)"
proof (cases "\<not> started s \<and> v > 99")
  case True
  then show ?thesis by (simp add: on_symbol_def)
next
  case False
  define s1 where "s1 = (if \<not> started s then s\<lparr>started := True, parity := 0\<rparr> else s)"
  have e: "(if \<not> started s then s\<lparr>sb := f, sn := m, started := True, parity := 0\<rparr>
            else s\<lparr>sb := f, sn := m\<rparr>) = s1\<lparr>sb := f, sn := m\<rparr>"
    by (cases s) (simp add: s1_def)
  show ?thesis
    using False
    by (cases "alternate v s1")
       (auto simp: on_symbol_def Let_def e s1_def [symmetric] alternate_window emit_window)
qed

lemma locked_bit_window:
  "locked_bit (s\<lparr>sb := f, sn := m\<rparr>) = map_option (\<lambda>u. u\<lparr>sb := f, sn := m\<rparr>) (locked_bit s)"
proof (cases "int_incr (sym_bit s)")
  case None
  then show ?thesis by (simp add: locked_bit_def)
next
  case (Some n)
  show ?thesis
  proof (cases "n < 10")
    case True
    then show ?thesis
      using Some by (cases s) (simp add: locked_bit_def)
  next
    case False
    have e: "s\<lparr>sb := f, sn := m, sym_bit := n, sym_bit := 0\<rparr> = (s\<lparr>sym_bit := n, sym_bit := 0\<rparr>)\<lparr>sb := f, sn := m\<rparr>"
      by (cases s) simp
    show ?thesis
    proof (cases "rpop_n 10 (s\<lparr>sym_bit := n, sym_bit := 0\<rparr>)")
      case None
      then show ?thesis
        using Some False unfolding locked_bit_def
        by (simp add: Let_def e rpop_n_window del: rpop_n.simps)
    next
      case (Some rs)
      obtain raw s3 where rs: "rs = (raw, s3)" by (cases rs)
      have e3: "s3\<lparr>sb := f, sn := m, state := HUNT, dcnt := 0, started := False\<rparr>
                 = (s3\<lparr>state := HUNT, dcnt := 0, started := False\<rparr>)\<lparr>sb := f, sn := m\<rparr>"
        by (cases s3) simp
      show ?thesis
        using \<open>int_incr (sym_bit s) = Some n\<close> False Some unfolding locked_bit_def rs
        by (simp add: Let_def e rpop_n_window on_symbol_window e3 del: rpop_n.simps)
    qed
  qed
qed

lemma process_bit_window:
  "process_bit b (s\<lparr>sb := f, sn := m\<rparr>) = map_option (\<lambda>u. u\<lparr>sb := f, sn := m\<rparr>) (process_bit b s)"
proof (cases "rpush b s")
  case None
  then show ?thesis by (simp add: process_bit_def rpush_window)
next
  case (Some s1)
  then show ?thesis
    by (simp add: process_bit_def rpush_window hunt_loop_window locked_bit_window)
qed


lemma process_bit_sn:
  assumes "process_bit b s = Some s1"
  shows "sn s1 = sn s"
proof -
  have "process_bit b (s\<lparr>sb := sb s, sn := sn s\<rparr>) = Some s1"
    using assms by simp
  then have "s1\<lparr>sb := sb s, sn := sn s\<rparr> = s1"
    unfolding process_bit_window assms by simp
  from arg_cong [OF this, of sn] show ?thesis by simp
qed

lemma run_fill_window:
  assumes "0 \<le> sn s" and "sn s + int (length ys) < 20"
  shows "run cls ys s =
           Some (s\<lparr>sb := (\<lambda>i. if nat (sn s) \<le> i \<and> i < nat (sn s) + length ys
                                then ys ! (i - nat (sn s)) else sb s i),
                   sn := sn s + int (length ys)\<rparr>)"
  using assms
proof (induction ys arbitrary: s)
  case Nil
  have "(\<lambda>i. if nat (sn s) \<le> i \<and> i < nat (sn s) + length ([] :: int16 list)
             then [] ! (i - nat (sn s)) else sb s i) = sb s"
    by (rule ext) auto
  then show ?case by simp
next
  case (Cons y ys)
  define s1 where "s1 = s\<lparr>sb := (sb s)(nat (sn s) := y), sn := sn s + 1\<rparr>"
  have f: "feed_sample cls y s = Some s1"
    using Cons.prems by (simp add: feed_sample_def s1_def SPB_20)
  have p: "0 \<le> sn s1" "sn s1 + int (length ys) < 20"
    using Cons.prems by (simp_all add: s1_def)
  have n1: "nat (sn s1) = Suc (nat (sn s))"
    using Cons.prems(1) by (simp add: s1_def nat_add_distrib)
  have "(\<lambda>i. if nat (sn s1) \<le> i \<and> i < nat (sn s1) + length ys
              then ys ! (i - nat (sn s1)) else sb s1 i)
        = (\<lambda>i. if nat (sn s) \<le> i \<and> i < nat (sn s) + length (y # ys)
              then (y # ys) ! (i - nat (sn s)) else sb s i)"
    unfolding n1 by (rule ext) (auto simp: s1_def nth_Cons' Suc_diff_le)
  then show ?case
    by (simp add: f Cons.IH [OF p]) (simp add: s1_def)
qed

lemma run_window:
  assumes "sn s = 0" and "length w = 20"
  shows "run cls w s =
           map_option (\<lambda>u. u\<lparr>sb := (\<lambda>i. if i < 20 then w ! i else sb s i), sn := 0\<rparr>)
             (process_bit (if cls w then 1 else 0) s)"
proof -
  define ys where "ys = butlast w"
  define y where "y = last w"
  have w: "w = ys @ [y]" "length ys = 19"
    using assms(2) by (auto simp: ys_def y_def intro: append_butlast_last_id [symmetric])
  define s19 where "s19 = s\<lparr>sb := (\<lambda>i. if i < 19 then ys ! i else sb s i), sn := 19\<rparr>"
  have n0: "nat (sn s) = 0" using assms(1) by simp
  have r19: "run cls ys s = Some s19"
    using assms(1) w(2) run_fill_window [of s ys cls, unfolded n0 diff_zero] by (simp add: s19_def)
  define F where "F = (\<lambda>i. if i < 20 then w ! i else sb s i)"
  have sbF: "(sb s19)(19 := y) = F"
    by (rule ext) (auto simp: s19_def F_def w nth_append)
  have win: "map F [0..<20] = w"
    using assms(2) by (intro nth_equalityI) (simp_all add: F_def)
  have sn19: "sn s19 = 19" by (simp add: s19_def)
  have e2: "s19\<lparr>sb := (sb s19)(19 := y), sn := 0\<rparr> = s\<lparr>sb := F, sn := 0\<rparr>"
    unfolding sbF by (simp add: s19_def)
  have wn: "window (s\<lparr>sb := F, sn := 0\<rparr>) = w"
    by (simp add: window_def SPB_20 win)
  have "feed_sample cls y s19 =
          process_bit (if cls (window (s19\<lparr>sb := (sb s19)(19 := y), sn := 0\<rparr>)) then 1 else 0)
            (s19\<lparr>sb := (sb s19)(19 := y), sn := 0\<rparr>)"
    by (simp add: feed_sample_def SPB_20 Let_def sn19)
  then have fs: "feed_sample cls y s19 = process_bit (if cls w then 1 else 0) (s\<lparr>sb := F, sn := 0\<rparr>)"
    unfolding e2 wn .
  have "run cls w s = run cls ys s \<bind> run cls [y]"
    by (subst w(1)) (rule run_append)
  also have "\<dots> = feed_sample cls y s19"
    unfolding r19 by (cases "feed_sample cls y s19") simp_all
  also have "\<dots> = map_option (\<lambda>u. u\<lparr>sb := F, sn := 0\<rparr>) (process_bit (if cls w then 1 else 0) s)"
    unfolding fs by (rule process_bit_window)
  finally show ?thesis
    unfolding F_def .
qed

lemma run_windows:
  assumes "\<forall>w\<in>set ws. length w = 20" and "sn s = 0" and "u\<lparr>sb := sb s\<rparr> = s"
  shows "rel_option (\<lambda>u' s'. u'\<lparr>sb := sb s'\<rparr> = s')
           (run cls (concat ws) u)
           (process_bits (map (\<lambda>w. if cls w then 1 else 0) ws) s)"
  using assms
proof (induction ws arbitrary: s u)
  case Nil
  then show ?case by simp
next
  case (Cons w ws)
  have lw: "length w = 20" and rest: "\<forall>w\<in>set ws. length w = 20"
    using Cons.prems(1) by simp_all
  define b :: int where "b = (if cls w then 1 else 0)"
  have snu: "sn u = 0"
    using arg_cong [OF Cons.prems(3), of sn] Cons.prems(2) by simp
  have u: "u = s\<lparr>sb := sb u, sn := 0\<rparr>"
    using Cons.prems(2,3) by (cases u, cases s) auto
  have "run cls w u =
          map_option (\<lambda>t. t\<lparr>sb := (\<lambda>i. if i < 20 then w ! i else sb u i), sn := 0\<rparr>) (process_bit b u)"
    unfolding b_def using snu lw by (rule run_window)
  also have "process_bit b u = map_option (\<lambda>t. t\<lparr>sb := sb u, sn := 0\<rparr>) (process_bit b s)"
    by (subst u) (rule process_bit_window)
  finally have rw: "run cls w u =
      map_option (\<lambda>t. t\<lparr>sb := (\<lambda>i. if i < 20 then w ! i else sb u i), sn := 0\<rparr>) (process_bit b s)"
    by (simp add: option.map_comp o_def)
  show ?case
  proof (cases "process_bit b s")
    case None
    then show ?thesis
      by (simp add: run_append rw b_def [symmetric])
  next
    case (Some s1)
    define u1 where "u1 = s1\<lparr>sb := (\<lambda>i. if i < 20 then w ! i else sb u i), sn := 0\<rparr>"
    have sn1: "sn s1 = 0"
      using process_bit_sn [OF Some] Cons.prems(2) by simp
    have rel: "u1\<lparr>sb := sb s1\<rparr> = s1"
      using sn1 by (cases s1) (simp add: u1_def)
    from Cons.IH [OF rest sn1 rel]
    show ?thesis
      by (simp add: run_append rw Some b_def [symmetric] u1_def [symmetric])
  qed
qed

lemma run_is_process_bits:
  assumes "\<forall>w\<in>set ws. length w = 20"
  shows "map_option out (run cls (concat ws) (init sb0 d0))
           = map_option out (process_bits (map (\<lambda>w. if cls w then 1 else 0) ws) (init sb0 d0))"
proof -
  have "sn (init sb0 d0) = 0" "(init sb0 d0)\<lparr>sb := sb (init sb0 d0)\<rparr> = init sb0 d0"
    by (simp_all add: init_def)
  from run_windows [OF assms this, of cls]
  show ?thesis
  proof (cases rule: option.rel_cases)
    case None
    then show ?thesis by simp
  next
    case (Some u' s')
    from arg_cong [OF Some(3), of out] have "out u' = out s'" by simp
    with Some show ?thesis by simp
  qed
qed

section \<open>An end-to-end example\<close>

text \<open>
  The phasing symbol twice, then ten symbol slots carrying 01 23 45 67 89 with the
  repetitions five slots later (104 and 105 fill the first two repetition slots): one
  line and one message, with the leading zero dropped.
\<close>

lemma end_to_end_example:
  "map_option out
     (process_bits
        (map uint (concat (map encode [125, 125, 1, 104, 23, 105, 45, 1, 67, 23, 89, 45])))
        (init (\<lambda>i. 0) (\<lambda>i. 0)))
   = Some [Stdout (''ATIS: 123456789'' @ [CHR 0x0A]), Udp_Send (''123456789'' @ [CHR 0x0A])]"
  by code_simp


end
